theory Spec2Isabelle
  imports Complex_Main
begin

section \<open>Numbers\<close>

text \<open>
  The weights, the range ends and the sampled point are values of the source language's
  \<^verbatim>\<open>number\<close> type. Besides the finite values it holds \<^verbatim>\<open>NaN\<close>, \<^verbatim>\<open>Infinity\<close> and
  \<^verbatim>\<open>-Infinity\<close>, and the constructor's check \<^verbatim>\<open>weight <= 0\<close> treats them differently,
  so they are part of the model. A finite number is written \<open>Fin x\<close> with \<open>x\<close> real;
  the numbers a program can hold are IEEE 754 binary64 values, and the results of
  \<^verbatim>\<open>+\<close> and \<^verbatim>\<open>*\<close> are rounded to binary64 (to nearest, ties to even, overflow to an
  infinity). The sign of zero is not modelled: no comparison tells \<^verbatim>\<open>-0\<close> from \<^verbatim>\<open>0\<close>.
\<close>

datatype number = NaN | NegInf | Fin real | PosInf

text \<open>The operator \<^verbatim>\<open><\<close>: every comparison with \<^verbatim>\<open>NaN\<close> is false.\<close>

fun js_less :: "number \<Rightarrow> number \<Rightarrow> bool" where
  "js_less (Fin a) (Fin b) = (a < b)"
| "js_less NegInf (Fin b) = True"
| "js_less NegInf PosInf = True"
| "js_less (Fin a) PosInf = True"
| "js_less a b = False"

text \<open>The operator \<^verbatim>\<open><=\<close>.\<close>

fun js_le :: "number \<Rightarrow> number \<Rightarrow> bool" where
  "js_le (Fin a) (Fin b) = (a \<le> b)"
| "js_le NegInf (Fin b) = True"
| "js_le NegInf PosInf = True"
| "js_le (Fin a) PosInf = True"
| "js_le NegInf NegInf = True"
| "js_le PosInf PosInf = True"
| "js_le a b = False"

subsection \<open>Rounding to binary64\<close>

text \<open>
  The exponent of a positive real: the \<open>e\<close> with \<open>2 ^ e \<le> x < 2 ^ (e + 1)\<close>, found by
  halving or doubling \<open>x\<close> into \<open>[1, 2)\<close>.
\<close>

function expo :: "real \<Rightarrow> int" where
  "expo x =
     (if x \<le> 0 then 0
      else if 2 \<le> x then expo (x / 2) + 1
      else if x < 1 then expo (2 * x) - 1
      else 0)"
  by pat_completeness auto
termination
proof (relation "measure (\<lambda>x. if x \<le> 0 then 0 else nat \<bar>\<lfloor>log 2 x\<rfloor>\<bar>)")
  show "wf (measure (\<lambda>x::real. if x \<le> 0 then 0 else nat \<bar>\<lfloor>log 2 x\<rfloor>\<bar>))" by simp
next
  fix x :: real
  assume a: "\<not> x \<le> 0" "2 \<le> x"
  have "log 2 (x / 2) = log 2 x - 1" using a by (simp add: log_divide)
  then have f: "\<lfloor>log 2 (x / 2)\<rfloor> = \<lfloor>log 2 x\<rfloor> - 1" by simp
  have "1 \<le> log 2 x" using a by (simp add: le_log_iff)
  then have "1 \<le> \<lfloor>log 2 x\<rfloor>" by (simp add: le_floor_iff)
  then have "nat \<bar>\<lfloor>log 2 x\<rfloor> - 1\<bar> < nat \<bar>\<lfloor>log 2 x\<rfloor>\<bar>" by linarith
  then have "nat \<bar>\<lfloor>log 2 (x / 2)\<rfloor>\<bar> < nat \<bar>\<lfloor>log 2 x\<rfloor>\<bar>" unfolding f .
  then show "(x / 2, x) \<in> measure (\<lambda>x. if x \<le> 0 then 0 else nat \<bar>\<lfloor>log 2 x\<rfloor>\<bar>)"
    using a by (simp del: log_divide)
next
  fix x :: real
  assume a: "\<not> x \<le> 0" "\<not> 2 \<le> x" "x < 1"
  have "log 2 (2 * x) = 1 + log 2 x" using a by (simp add: log_mult)
  then have f: "\<lfloor>log 2 (2 * x)\<rfloor> = \<lfloor>log 2 x\<rfloor> + 1" by simp
  have "log 2 x < 0" using a by simp
  then have "\<lfloor>log 2 x\<rfloor> < 0" by (simp add: floor_less_iff)
  then have "nat \<bar>\<lfloor>log 2 x\<rfloor> + 1\<bar> < nat \<bar>\<lfloor>log 2 x\<rfloor>\<bar>" by linarith
  then have "nat \<bar>\<lfloor>log 2 (2 * x)\<rfloor>\<bar> < nat \<bar>\<lfloor>log 2 x\<rfloor>\<bar>" unfolding f .
  then show "(2 * x, x) \<in> measure (\<lambda>x. if x \<le> 0 then 0 else nat \<bar>\<lfloor>log 2 x\<rfloor>\<bar>)"
    using a by simp
qed

declare expo.simps [simp del]

text \<open>
  The exponent that fixes the spacing of binary64 values around \<open>x > 0\<close>: the exponent
  of \<open>x\<close>, and \<open>-1022\<close> for the subnormal values below \<open>2 ^ -1022\<close>. The spacing itself
  is \<open>2 ^ (e - 52)\<close>: a significand of 53 bits.
\<close>

definition binade :: "real \<Rightarrow> int" where
  "binade x = max (expo x) (- 1022)"

definition ulp :: "real \<Rightarrow> real" where
  "ulp x = 2 powi (binade x - 52)"

text \<open>Rounding to the nearest integer, a tie going to the even one.\<close>

definition round_even :: "real \<Rightarrow> int" where
  "round_even q =
     (let f = \<lfloor>q\<rfloor>; d = q - of_int f
      in if d < 1 / 2 then f else if 1 / 2 < d then f + 1 else if even f then f else f + 1)"

text \<open>
  The multiple of the spacing nearest to \<open>x \<ge> 0\<close>, and the binary64 value it denotes:
  from \<open>2 ^ 1024\<close> on the result overflows to \<^verbatim>\<open>Infinity\<close>.
\<close>

definition nearest :: "real \<Rightarrow> real" where
  "nearest x = of_int (round_even (x / ulp x)) * ulp x"

definition round_pos :: "real \<Rightarrow> number" where
  "round_pos x = (if 2 ^ 1024 \<le> nearest x then PosInf else Fin (nearest x))"

fun js_neg :: "number \<Rightarrow> number" where
  "js_neg NaN = NaN"
| "js_neg NegInf = PosInf"
| "js_neg (Fin a) = Fin (- a)"
| "js_neg PosInf = NegInf"

text \<open>The binary64 value of a real result; rounding is symmetric in the sign.\<close>

definition round64 :: "real \<Rightarrow> number" where
  "round64 x = (if x < 0 then js_neg (round_pos (- x)) else round_pos x)"

subsection \<open>Arithmetic\<close>

text \<open>The operator \<^verbatim>\<open>+\<close> on numbers: the exact sum of two finite numbers, rounded.\<close>

fun js_add :: "number \<Rightarrow> number \<Rightarrow> number" where
  "js_add (Fin a) (Fin b) = round64 (a + b)"
| "js_add NaN b = NaN"
| "js_add a NaN = NaN"
| "js_add PosInf NegInf = NaN"
| "js_add NegInf PosInf = NaN"
| "js_add PosInf b = PosInf"
| "js_add a PosInf = PosInf"
| "js_add NegInf b = NegInf"
| "js_add a NegInf = NegInf"

text \<open>
  The operator \<^verbatim>\<open>*\<close> on numbers: the exact product of two finite numbers, rounded;
  zero times an infinity is \<^verbatim>\<open>NaN\<close>.
\<close>

definition js_sign :: "number \<Rightarrow> int" where
  "js_sign a = (case a of NaN \<Rightarrow> 0 | NegInf \<Rightarrow> - 1 | PosInf \<Rightarrow> 1
     | Fin x \<Rightarrow> (if x < 0 then - 1 else if x = 0 then 0 else 1))"

fun js_mul :: "number \<Rightarrow> number \<Rightarrow> number" where
  "js_mul (Fin a) (Fin b) = round64 (a * b)"
| "js_mul NaN b = NaN"
| "js_mul a NaN = NaN"
| "js_mul a b =
     (if js_sign a * js_sign b = 0 then NaN
      else if js_sign a * js_sign b < 0 then NegInf else PosInf)"

text \<open>
  Reading an array at an index: outside the array the source language yields
  \<^verbatim>\<open>undefined\<close>, modelled as \<open>None\<close>.
\<close>

definition js_index :: "'a list \<Rightarrow> int \<Rightarrow> 'a option" where
  "js_index xs i = (if 0 \<le> i \<and> i < int (length xs) then Some (xs ! nat i) else None)"

text \<open>
  A number read from an array and used in a comparison: \<^verbatim>\<open>undefined\<close> converts to
  \<^verbatim>\<open>NaN\<close> there.
\<close>

definition number_at :: "number list \<Rightarrow> int \<Rightarrow> number" where
  "number_at xs i = (case js_index xs i of None \<Rightarrow> NaN | Some b \<Rightarrow> b)"

section \<open>The sampler\<close>

text \<open>
  The three private fields of \<^verbatim>\<open>WeightedRandomItemSampler<T>\<close>.
\<close>

record 'a sampler =
  items :: "'a list"
  ascRangeEnds :: "number list"
  lastRangeEnd :: number

text \<open>
  The constructor throws an \<^verbatim>\<open>Error\<close> whose message tells the three failures apart:
  \<open>EmptyInput\<close> is "Zero items were provided to WeightedRandomItemSampler";
  \<open>LengthMismatch\<close> is "received n items and m weights", with both lengths;
  \<open>NonPositiveWeight\<close> is "received a non-positive weight of w", with the weight.
  The constructors carry exactly what the message interpolates.
\<close>

datatype error = EmptyInput | LengthMismatch nat nat | NonPositiveWeight number

text \<open>
  The loop \<^verbatim>\<open>for (const weight of respectiveWeights)\<close> of the constructor, with its two
  locals \<^verbatim>\<open>ascRangeEnds\<close> (here \<open>ends\<close>) and \<^verbatim>\<open>weightsPrefixSum\<close>.
\<close>

fun sum_weights :: "number list \<Rightarrow> number list \<Rightarrow> number \<Rightarrow> error + (number list \<times> number)" where
  "sum_weights [] ends weightsPrefixSum = Inr (ends, weightsPrefixSum)"
| "sum_weights (weight # rest) ends weightsPrefixSum =
     (if js_le weight (Fin 0) then Inl (NonPositiveWeight weight)
      else sum_weights rest (ends @ [js_add weightsPrefixSum weight])
             (js_add weightsPrefixSum weight))"

definition constructor :: "'a list \<Rightarrow> number list \<Rightarrow> error + 'a sampler" where
  "constructor its respectiveWeights =
     (if length its = 0 then Inl EmptyInput
      else if length its \<noteq> length respectiveWeights
        then Inl (LengthMismatch (length its) (length respectiveWeights))
      else (case sum_weights respectiveWeights [] (Fin 0) of
              Inl e \<Rightarrow> Inl e
            | Inr (ends, weightsPrefixSum) \<Rightarrow>
                Inr \<lparr>items = its, ascRangeEnds = ends,
                     lastRangeEnd = weightsPrefixSum\<rparr>))"

text \<open>
  One iteration of the \<^verbatim>\<open>while\<close> loop of \<^verbatim>\<open>_findCorrespondingRangeIndex\<close>, on the
  locals \<^verbatim>\<open>(rangeIndex, left, right)\<close>. \<^verbatim>\<open>Math.floor((left + right) / 2)\<close> is the
  floor division of integers.
\<close>

definition loop_body :: "number list \<Rightarrow> number \<Rightarrow> int \<times> int \<times> int \<Rightarrow> int \<times> int \<times> int" where
  "loop_body ends pointInRange st =
     (case st of (rangeIndex, left, right) \<Rightarrow>
        (let mid = (left + right) div 2 in
         if js_less pointInRange (number_at ends mid)
         then (mid, left, mid - 1)
         else (rangeIndex, mid + 1, right)))"

function search_loop :: "number list \<Rightarrow> number \<Rightarrow> int \<times> int \<times> int \<Rightarrow> int" where
  "search_loop ends pointInRange (rangeIndex, left, right) =
     (if left \<le> right
      then search_loop ends pointInRange (loop_body ends pointInRange (rangeIndex, left, right))
      else rangeIndex)"
  by pat_completeness auto
termination
  by (relation "measure (\<lambda>(ends, p, (rangeIndex, left, right)). nat (right - left + 1))")
     (auto simp: loop_body_def Let_def)

declare search_loop.simps [simp del]

definition findCorrespondingRangeIndex :: "'a sampler \<Rightarrow> number \<Rightarrow> int" where
  "findCorrespondingRangeIndex s pointInRange =
     search_loop (ascRangeEnds s) pointInRange (0, 0, int (length (ascRangeEnds s)) - 1)"

text \<open>
  \<^verbatim>\<open>sample()\<close>, with the value \<open>u\<close> that \<^verbatim>\<open>Math.random()\<close> returns as a parameter.
  It returns the item read (\<open>None\<close> for \<^verbatim>\<open>undefined\<close>) and the sampler after the call.
\<close>

definition sample :: "'a sampler \<Rightarrow> number \<Rightarrow> 'a option \<times> 'a sampler" where
  "sample s u =
     (let randomPoint = js_mul u (lastRangeEnd s);
          rangeIndex = findCorrespondingRangeIndex s randomPoint
      in (js_index (items s) rangeIndex, s))"

text \<open>A sequence of calls of \<^verbatim>\<open>sample()\<close>, one per drawn value, threading the sampler.\<close>

fun sample_calls :: "'a sampler \<Rightarrow> number list \<Rightarrow> 'a option list \<times> 'a sampler" where
  "sample_calls s [] = ([], s)"
| "sample_calls s (u # us) =
     (case sample s u of (x, s') \<Rightarrow>
        (case sample_calls s' us of (xs, s'') \<Rightarrow> (x # xs, s'')))"

section \<open>Auxiliary notions for the proofs\<close>

text \<open>
  The running sums that the constructor's loop appends, starting from the sum \<open>s\<close>
  reached so far.
\<close>

fun prefix_sums :: "number \<Rightarrow> number list \<Rightarrow> number list" where
  "prefix_sums s [] = []"
| "prefix_sums s (w # ws) = js_add s w # prefix_sums (js_add s w) ws"

text \<open>
  The order that every constructed table satisfies: a later entry is \<^verbatim>\<open>NaN\<close> or not
  below an earlier one.
\<close>

definition asc_rel :: "number \<Rightarrow> number \<Rightarrow> bool" where
  "asc_rel a b = (b = NaN \<or> js_le a b)"

text \<open>
  What a running sum of the constructor's loop can be: \<^verbatim>\<open>NaN\<close>, \<^verbatim>\<open>Infinity\<close>, or a
  finite binary64 value that is not negative.
\<close>

definition is_sum :: "number \<Rightarrow> bool" where
  "is_sum s = (case s of NaN \<Rightarrow> True | NegInf \<Rightarrow> False
     | Fin a \<Rightarrow> 0 \<le> a \<and> nearest a = a | PosInf \<Rightarrow> True)"


section \<open>Rounding\<close>

lemma expo_bounds:
  "0 < x \<Longrightarrow> 2 powi expo x \<le> x \<and> x < 2 powi (expo x + 1)"
proof (induction x rule: expo.induct)
  case (1 x)
  show ?case
  proof (cases "2 \<le> x")
    case True
    then have e: "expo x = expo (x / 2) + 1" using "1.prems" by (subst expo.simps) simp
    have ih: "2 powi expo (x / 2) \<le> x / 2 \<and> x / 2 < 2 powi (expo (x / 2) + 1)"
      using "1.IH"(1) True "1.prems" by simp
    have p1: "(2::real) powi (expo (x / 2) + 1) = 2 * 2 powi expo (x / 2)"
      using power_int_add_1'[of "2::real" "expo (x / 2)"] by simp
    have p2: "(2::real) powi (expo (x / 2) + 1 + 1) = 2 * 2 powi (expo (x / 2) + 1)"
      using power_int_add_1'[of "2::real" "expo (x / 2) + 1"] by simp
    show ?thesis unfolding e p2 unfolding p1 using ih p1 by auto
  next
    case False
    show ?thesis
    proof (cases "x < 1")
      case True
      then have e: "expo x = expo (2 * x) - 1" using "1.prems" False by (subst expo.simps) simp
      have ih: "2 powi expo (2 * x) \<le> 2 * x \<and> 2 * x < 2 powi (expo (2 * x) + 1)"
        using "1.IH"(2) True False "1.prems" by simp
      have p1: "(2::real) powi (expo (2 * x)) = 2 * 2 powi (expo (2 * x) - 1)"
        using power_int_add_1'[of "2::real" "expo (2 * x) - 1"] by simp
      have p2: "(2::real) powi (expo (2 * x) + 1) = 2 * 2 powi (expo (2 * x) - 1 + 1)"
        using power_int_add_1'[of "2::real" "expo (2 * x)"] by simp
      show ?thesis unfolding e using ih p1 p2 by auto
    next
      case b: False
      then have e: "expo x = 0" using "1.prems" False by (subst expo.simps) simp
      show ?thesis unfolding e using False b by simp
    qed
  qed
qed

lemma expo_unique:
  assumes "0 < x" "2 powi e \<le> x" "x < 2 powi (e + 1)"
  shows "expo x = e"
proof (rule ccontr)
  assume ne: "expo x \<noteq> e"
  note b = expo_bounds[OF assms(1)]
  show False
  proof (cases "expo x < e")
    case True
    then have "(2::real) powi (expo x + 1) \<le> 2 powi e"
      by (intro power_int_increasing) auto
    then show False using b assms(2) by linarith
  next
    case False
    then have "e + 1 \<le> expo x" using ne by simp
    then have "(2::real) powi (e + 1) \<le> 2 powi expo x"
      by (intro power_int_increasing) auto
    then show False using b assms(3) by linarith
  qed
qed

lemma binade_ge: "- 1022 \<le> binade x"
  by (simp add: binade_def)

lemma binade_upper:
  assumes "0 < x"
  shows "x < 2 powi (binade x + 1)"
proof -
  have "x < 2 powi (expo x + 1)" using expo_bounds[OF assms] by simp
  moreover have "(2::real) powi (expo x + 1) \<le> 2 powi (binade x + 1)"
    by (intro power_int_increasing) (auto simp: binade_def)
  ultimately show ?thesis by linarith
qed

lemma binade_lower:
  assumes "0 < x" "- 1022 < binade x"
  shows "2 powi binade x \<le> x"
proof -
  have "binade x = expo x" using assms(2) by (auto simp: binade_def max_def split: if_splits)
  then show ?thesis using expo_bounds[OF assms(1)] by simp
qed

lemma binade_eq:
  assumes "0 < x" "- 1022 \<le> e" "x < 2 powi (e + 1)" "- 1022 < e \<Longrightarrow> 2 powi e \<le> x"
  shows "binade x = e"
proof (cases "- 1022 < e")
  case True
  then have "expo x = e" using expo_unique[OF assms(1) assms(4) assms(3)] by simp
  then show ?thesis using True by (simp add: binade_def)
next
  case False
  then have e: "e = - 1022" using assms(2) by simp
  have "expo x \<le> - 1022"
  proof (rule ccontr)
    assume "\<not> expo x \<le> - 1022"
    then have "e + 1 \<le> expo x" using e by simp
    then have "(2::real) powi (e + 1) \<le> 2 powi expo x"
      by (intro power_int_increasing) auto
    then show False using expo_bounds[OF assms(1)] assms(3) by linarith
  qed
  then show ?thesis using e by (simp add: binade_def)
qed

lemma binade_mono:
  assumes "0 < a" "a \<le> y"
  shows "binade a \<le> binade y"
proof (rule ccontr)
  assume "\<not> binade a \<le> binade y"
  then have lt: "binade y + 1 \<le> binade a" by simp
  then have "- 1022 < binade a" using binade_ge[of y] by linarith
  then have "2 powi binade a \<le> a" using binade_lower[OF assms(1)] by simp
  moreover have "(2::real) powi (binade y + 1) \<le> 2 powi binade a"
    using lt by (intro power_int_increasing) auto
  moreover have "y < 2 powi (binade y + 1)" using binade_upper[of y] assms by simp
  ultimately show False using assms(2) by linarith
qed

lemma ulp_pos: "0 < ulp x"
  by (simp add: ulp_def)

lemma round_even_int: "round_even (of_int n) = n"
  by (simp add: round_even_def)

lemma round_even_cases: "round_even q = \<lfloor>q\<rfloor> \<or> round_even q = \<lfloor>q\<rfloor> + 1"
  by (simp add: round_even_def Let_def)

lemma round_even_mono:
  assumes "q \<le> q'"
  shows "round_even q \<le> round_even q'"
proof (cases "\<lfloor>q\<rfloor> < \<lfloor>q'\<rfloor>")
  case True
  have "round_even q \<le> \<lfloor>q\<rfloor> + 1" using round_even_cases[of q] by linarith
  moreover have "\<lfloor>q'\<rfloor> \<le> round_even q'" using round_even_cases[of q'] by linarith
  ultimately show ?thesis using True by linarith
next
  case False
  moreover have "\<lfloor>q\<rfloor> \<le> \<lfloor>q'\<rfloor>" using assms by (rule floor_mono)
  ultimately have eq: "\<lfloor>q'\<rfloor> = \<lfloor>q\<rfloor>" by simp
  then have d: "q - of_int \<lfloor>q\<rfloor> \<le> q' - of_int \<lfloor>q'\<rfloor>" using assms by simp
  show ?thesis
  proof (cases "round_even q = \<lfloor>q\<rfloor>")
    case True
    then show ?thesis using round_even_cases[of q'] eq by linarith
  next
    case False
    then have up: "\<not> q - of_int \<lfloor>q\<rfloor> < 1 / 2"
      "1 / 2 < q - of_int \<lfloor>q\<rfloor> \<or> \<not> even \<lfloor>q\<rfloor>"
      by (auto simp: round_even_def Let_def split: if_splits)
    then have "round_even q' = \<lfloor>q'\<rfloor> + 1"
      using d eq by (auto simp: round_even_def Let_def)
    then show ?thesis using round_even_cases[of q] eq by linarith
  qed
qed

lemma pow52: "(2::real) powi e = 2 ^ 52 * 2 powi (e - 52)"
proof -
  have "(2::real) powi (52 + (e - 52)) = 2 powi 52 * 2 powi (e - 52)"
    by (rule power_int_add) simp
  then show ?thesis by simp
qed

lemma pow53: "(2::real) powi (e + 1) = 2 ^ 53 * 2 powi (e - 52)"
proof -
  have "(2::real) powi (53 + (e - 52)) = 2 powi 53 * 2 powi (e - 52)"
    by (rule power_int_add) simp
  moreover have "53 + (e - 52) = e + 1" by simp
  ultimately show ?thesis by simp
qed

lemma nearest_nonneg:
  assumes "0 \<le> x"
  shows "0 \<le> nearest x"
proof -
  have "0 \<le> x / ulp x" using assms ulp_pos[of x] by simp
  then have "round_even (of_int 0) \<le> round_even (x / ulp x)"
    by (intro round_even_mono) simp
  then have "0 \<le> round_even (x / ulp x)" by (simp only: round_even_int)
  then show ?thesis using ulp_pos[of x] by (simp add: nearest_def)
qed

lemma nearest_lower:
  assumes "0 < x" "- 1022 < binade x"
  shows "2 powi binade x \<le> nearest x"
proof -
  let ?u = "ulp x"
  have u: "0 < ?u" by (rule ulp_pos)
  have "2 ^ 52 * ?u \<le> x" using binade_lower[OF assms] pow52[of "binade x"] by (simp add: ulp_def)
  then have "2 ^ 52 \<le> x / ?u" using u by (simp add: pos_le_divide_eq)
  then have "of_int (2 ^ 52) \<le> x / ?u" by simp
  then have "round_even (of_int (2 ^ 52)) \<le> round_even (x / ?u)" by (rule round_even_mono)
  then have "2 ^ 52 \<le> round_even (x / ?u)" by (simp only: round_even_int)
  then have "(2::real) ^ 52 \<le> of_int (round_even (x / ?u))"
    by (metis of_int_le_iff of_int_numeral of_int_power)
  then have "2 ^ 52 * ?u \<le> of_int (round_even (x / ?u)) * ?u"
    using u by (simp add: mult_right_mono)
  then show ?thesis using pow52[of "binade x"] by (simp add: nearest_def ulp_def)
qed

lemma nearest_upper:
  assumes "0 < x"
  shows "nearest x \<le> 2 powi (binade x + 1)"
proof -
  let ?u = "ulp x"
  have u: "0 < ?u" by (rule ulp_pos)
  have "x \<le> 2 ^ 53 * ?u" using binade_upper[OF assms] pow53[of "binade x"] by (simp add: ulp_def)
  then have "x / ?u \<le> 2 ^ 53" using u by (simp add: pos_divide_le_eq)
  then have "x / ?u \<le> of_int (2 ^ 53)" by simp
  then have "round_even (x / ?u) \<le> round_even (of_int (2 ^ 53))" by (rule round_even_mono)
  then have "round_even (x / ?u) \<le> 2 ^ 53" by (simp only: round_even_int)
  then have "of_int (round_even (x / ?u)) \<le> (2::real) ^ 53"
    by (metis of_int_le_iff of_int_numeral of_int_power)
  then have "of_int (round_even (x / ?u)) * ?u \<le> 2 ^ 53 * ?u"
    using u by (simp add: mult_right_mono)
  then show ?thesis using pow53[of "binade x"] by (simp add: nearest_def ulp_def)
qed

lemma nearest_0: "nearest 0 = 0"
  by (simp add: nearest_def round_even_def)

lemma nearest_grid:
  assumes "c = of_int n * 2 powi (binade c - 52)"
  shows "nearest c = c"
proof -
  have u: "ulp c = 2 powi (binade c - 52)" by (simp add: ulp_def)
  have "0 < ulp c" by (rule ulp_pos)
  then have "c / ulp c = of_int n" using assms u by (simp add: field_simps)
  then have "round_even (c / ulp c) = n" by (simp only: round_even_int)
  then show ?thesis using assms u by (simp add: nearest_def)
qed

lemma nearest_fixed:
  assumes "0 \<le> x"
  shows "nearest (nearest x) = nearest x"
proof (cases "x = 0")
  case True
  then show ?thesis by (simp add: nearest_0)
next
  case False
  then have x: "0 < x" using assms by simp
  let ?e = "binade x"
  let ?c = "nearest x"
  have c0: "0 \<le> ?c" using nearest_nonneg[OF assms] .
  have up: "?c \<le> 2 powi (?e + 1)" using nearest_upper[OF x] .
  show ?thesis
  proof (cases "?c = 0")
    case True
    then show ?thesis by (simp add: nearest_0)
  next
    case nz: False
    then have cpos: "0 < ?c" using c0 by simp
    show ?thesis
    proof (cases "?c = 2 powi (?e + 1)")
      case True
      have "(2::real) powi (?e + 1) < 2 powi (?e + 1 + 1)"
        by (intro power_int_strict_increasing) auto
      then have "binade ?c = ?e + 1"
        using True cpos binade_ge[of x] by (intro binade_eq) auto
      then have "?c = of_int (2 ^ 52) * 2 powi (binade ?c - 52)"
        using True pow52[of "?e + 1"] by simp
      then show ?thesis by (rule nearest_grid)
    next
      case False
      then have lt: "?c < 2 powi (?e + 1)" using up by simp
      have "binade ?c = ?e"
      proof (rule binade_eq[OF cpos binade_ge lt])
        assume "- 1022 < ?e"
        then show "2 powi ?e \<le> ?c" using nearest_lower[OF x] by simp
      qed
      then have "?c = of_int (round_even (x / ulp x)) * 2 powi (binade ?c - 52)"
        by (simp add: nearest_def ulp_def)
      then show ?thesis by (rule nearest_grid)
    qed
  qed
qed

lemma nearest_not_below:
  assumes "0 \<le> a" "nearest a = a" "a < y"
  shows "a \<le> nearest y"
proof (cases "a = 0")
  case True
  then show ?thesis using nearest_nonneg[of y] assms(3) by simp
next
  case False
  then have a: "0 < a" using assms(1) by simp
  then have y: "0 < y" using assms(3) by simp
  have le: "binade a \<le> binade y" using binade_mono[OF a] assms(3) by simp
  show ?thesis
  proof (cases "binade a = binade y")
    case True
    then have u: "ulp a = ulp y" by (simp add: ulp_def)
    have "a / ulp y \<le> y / ulp y" using assms(3) ulp_pos[of y] by (simp add: divide_right_mono)
    then have "round_even (a / ulp y) \<le> round_even (y / ulp y)" by (rule round_even_mono)
    then have "of_int (round_even (a / ulp y)) * ulp y \<le> of_int (round_even (y / ulp y)) * ulp y"
      using ulp_pos[of y] by (simp add: mult_right_mono)
    then have "nearest a \<le> nearest y" unfolding nearest_def u .
    then show ?thesis using assms(2) by simp
  next
    case False
    then have lt: "binade a + 1 \<le> binade y" using le by simp
    then have "- 1022 < binade y" using binade_ge[of a] by linarith
    then have "2 powi binade y \<le> nearest y" using nearest_lower[OF y] by simp
    moreover have "(2::real) powi (binade a + 1) \<le> 2 powi binade y"
      using lt by (intro power_int_increasing) auto
    moreover have "a < 2 powi (binade a + 1)" using binade_upper[OF a] .
    ultimately show ?thesis by linarith
  qed
qed

text \<open>The rounding of a value whose exponent is known.\<close>

lemma round_pos_eval:
  assumes "0 < x" "- 1022 \<le> e" "x < 2 powi (e + 1)" "- 1022 < e \<Longrightarrow> 2 powi e \<le> x"
  shows "round_pos x =
     (if (2::real) ^ 1024 \<le> real_of_int (round_even (x / 2 powi (e - 52))) * 2 powi (e - 52)
      then PosInf
      else Fin (real_of_int (round_even (x / 2 powi (e - 52))) * 2 powi (e - 52)))"
proof -
  have "binade x = e" using assms by (rule binade_eq)
  then show ?thesis by (simp add: round_pos_def nearest_def ulp_def)
qed

lemma round64_1: "round64 1 = Fin 1"
  unfolding round64_def by (subst round_pos_eval[of 1 0]) (simp_all add: round_even_def)

lemma round64_3: "round64 3 = Fin 3"
  unfolding round64_def by (subst round_pos_eval[of 3 1]) (simp_all add: round_even_def)

text \<open>
  Rounding at work: \<open>1e16 + 1\<close> is \<open>1e16\<close>, \<open>2 ^ 1023 + 2 ^ 1023\<close> overflows, the
  binary64 value of \<open>1/3\<close> times 3 is 1, and a tie among the subnormal values goes to
  the even one.
\<close>

lemma round64_1e16: "round64 10000000000000000 = Fin 10000000000000000"
  unfolding round64_def
  by (subst round_pos_eval[of _ 53]) (simp_all add: round_even_def)

lemma round64_1e16_plus_1: "round64 10000000000000001 = Fin 10000000000000000"
  unfolding round64_def
  by (subst round_pos_eval[of _ 53]) (simp_all add: round_even_def)

lemma js_add_absorbs: "js_add (Fin 10000000000000000) (Fin 1) = Fin 10000000000000000"
  by (simp add: round64_1e16_plus_1)

lemma js_add_overflows: "js_add (Fin (2 ^ 1023)) (Fin (2 ^ 1023)) = PosInf"
  unfolding js_add.simps round64_def
  by (subst round_pos_eval[of _ 1024]) (simp_all add: round_even_def)

lemma js_mul_third: "js_mul (Fin (6004799503160661 / 2 ^ 54)) (Fin 3) = Fin 1"
  unfolding js_mul.simps round64_def
  by (subst round_pos_eval[of _ "- 1"]) (simp_all add: round_even_def)

lemma js_mul_subnormal:
  "js_mul (Fin (3 / 4)) (Fin (2 / 2 ^ 1074)) = Fin (2 / 2 ^ 1074)"
  unfolding js_mul.simps round64_def
  by (subst round_pos_eval[of _ "- 1022"]) (simp_all add: round_even_def)

section \<open>Comparison and addition of numbers\<close>

lemma js_less_le_trans: "js_less a b \<Longrightarrow> js_le b c \<Longrightarrow> js_less a c"
  by (cases a; cases b; cases c) auto

lemma js_le_trans: "js_le a b \<Longrightarrow> js_le b c \<Longrightarrow> js_le a c"
  by (cases a; cases b; cases c) auto

lemma js_less_trans: "js_less a b \<Longrightarrow> js_less b c \<Longrightarrow> js_less a c"
  by (cases a; cases b; cases c) auto

lemma js_le_not_less: "js_le b a \<Longrightarrow> \<not> js_less a b"
  by (cases a; cases b) auto

lemma js_not_less_le: "a \<noteq> NaN \<Longrightarrow> b \<noteq> NaN \<Longrightarrow> \<not> js_less a b \<Longrightarrow> js_le b a"
  by (cases a; cases b) auto

lemma js_le_not_NaN: "js_le a b \<Longrightarrow> a \<noteq> NaN \<and> b \<noteq> NaN"
  by (cases a; cases b) auto

lemma js_less_not_NaN: "js_less a b \<Longrightarrow> a \<noteq> NaN \<and> b \<noteq> NaN"
  by (cases a; cases b) auto

lemma asc_rel_trans: "asc_rel a b \<Longrightarrow> asc_rel b c \<Longrightarrow> asc_rel a c"
  unfolding asc_rel_def by (cases a; cases b; cases c) auto

lemma is_sum_0: "is_sum (Fin 0)"
  by (simp add: is_sum_def nearest_0)

lemma round64_sum:
  assumes "0 \<le> a" "nearest a = a" "0 < b"
  shows "is_sum (round64 (a + b)) \<and> js_le (Fin a) (round64 (a + b))"
proof -
  have pos: "0 \<le> a + b" "a < a + b" using assms(1,3) by simp_all
  have r: "round64 (a + b) = round_pos (a + b)" using pos(1) by (simp add: round64_def)
  show ?thesis
  proof (cases "2 ^ 1024 \<le> nearest (a + b)")
    case True
    then show ?thesis unfolding r by (simp add: round_pos_def is_sum_def)
  next
    case False
    have "0 \<le> nearest (a + b)" using nearest_nonneg[OF pos(1)] .
    moreover have "nearest (nearest (a + b)) = nearest (a + b)"
      using nearest_fixed[OF pos(1)] .
    moreover have "a \<le> nearest (a + b)"
      using nearest_not_below[OF assms(1,2) pos(2)] .
    ultimately show ?thesis unfolding r using False by (simp add: round_pos_def is_sum_def)
  qed
qed

lemma js_add_sum:
  assumes "is_sum s" "\<not> js_le w (Fin 0)"
  shows "is_sum (js_add s w) \<and> asc_rel s (js_add s w)"
proof (cases s)
  case NaN
  then show ?thesis by (simp add: is_sum_def asc_rel_def)
next
  case NegInf
  then show ?thesis using assms(1) by (simp add: is_sum_def)
next
  case PosInf
  then show ?thesis using assms(2) by (cases w) (simp_all add: is_sum_def asc_rel_def)
next
  case (Fin a)
  then have a: "0 \<le> a" "nearest a = a" using assms(1) by (simp_all add: is_sum_def)
  show ?thesis
  proof (cases w)
    case (Fin b)
    then have "0 < b" using assms(2) by simp
    then show ?thesis using round64_sum[OF a] Fin \<open>s = Fin a\<close> by (simp add: asc_rel_def)
  next
    case NaN
    then show ?thesis using Fin by (simp add: is_sum_def asc_rel_def)
  next
    case NegInf
    then show ?thesis using assms(2) by simp
  next
    case PosInf
    then show ?thesis using Fin by (simp add: is_sum_def asc_rel_def)
  qed
qed

lemma length_prefix_sums: "length (prefix_sums s ws) = length ws"
  by (induction ws arbitrary: s) auto

lemma prefix_sums_nth:
  "i < length ws \<Longrightarrow> prefix_sums s ws ! i = foldl js_add s (take (Suc i) ws)"
proof (induction ws arbitrary: s i)
  case Nil
  then show ?case by simp
next
  case (Cons w ws)
  then show ?case by (cases i) auto
qed

lemma prefix_sums_Nil_iff: "prefix_sums s ws = [] \<longleftrightarrow> ws = []"
  by (cases ws) auto

lemma prefix_sums_last: "ws \<noteq> [] \<Longrightarrow> last (prefix_sums s ws) = foldl js_add s ws"
  by (induction ws arbitrary: s) (auto simp: prefix_sums_Nil_iff)

lemma sum_weights_find:
  "sum_weights ws ends s =
     (case List.find (\<lambda>w. js_le w (Fin 0)) ws of
        Some w \<Rightarrow> Inl (NonPositiveWeight w)
      | None \<Rightarrow> Inr (ends @ prefix_sums s ws, foldl js_add s ws))"
  by (induction ws arbitrary: ends s) (auto split: option.splits)

lemma prefix_sums_above:
  "is_sum s \<Longrightarrow> \<forall>w \<in> set ws. \<not> js_le w (Fin 0) \<Longrightarrow> x \<in> set (prefix_sums s ws)
     \<Longrightarrow> asc_rel s x"
proof (induction ws arbitrary: s)
  case Nil
  then show ?case by simp
next
  case (Cons w ws)
  have w: "\<not> js_le w (Fin 0)" using Cons.prems(2) by simp
  have step: "is_sum (js_add s w)" "asc_rel s (js_add s w)"
    using js_add_sum[OF Cons.prems(1) w] by simp_all
  from Cons.prems(3) consider "x = js_add s w" | "x \<in> set (prefix_sums (js_add s w) ws)"
    by auto
  then show ?case
  proof cases
    case 1
    then show ?thesis using step(2) by simp
  next
    case 2
    have "\<forall>w \<in> set ws. \<not> js_le w (Fin 0)" using Cons.prems(2) by simp
    then have "asc_rel (js_add s w) x" using Cons.IH[OF step(1) _ 2] by simp
    then show ?thesis using step(2) asc_rel_trans by blast
  qed
qed

lemma prefix_sums_sorted:
  "is_sum s \<Longrightarrow> \<forall>w \<in> set ws. \<not> js_le w (Fin 0) \<Longrightarrow> sorted_wrt asc_rel (prefix_sums s ws)"
proof (induction ws arbitrary: s)
  case Nil
  then show ?case by simp
next
  case (Cons w ws)
  have w: "\<not> js_le w (Fin 0)" and rest: "\<forall>w \<in> set ws. \<not> js_le w (Fin 0)"
    using Cons.prems(2) by simp_all
  have step: "is_sum (js_add s w)" using js_add_sum[OF Cons.prems(1) w] by simp
  have "\<forall>x \<in> set (prefix_sums (js_add s w) ws). asc_rel (js_add s w) x"
    using prefix_sums_above[OF step rest] by blast
  moreover have "sorted_wrt asc_rel (prefix_sums (js_add s w) ws)"
    using Cons.IH[OF step rest] .
  ultimately show ?case by simp
qed

section \<open>The search loop\<close>

lemma loop_body_cases:
  assumes "left \<le> right"
  obtains mid where "left \<le> mid" "mid \<le> right"
    "js_less p (number_at ends mid)"
    "loop_body ends p (rangeIndex, left, right) = (mid, left, mid - 1)"
  | mid where "left \<le> mid" "mid \<le> right"
    "\<not> js_less p (number_at ends mid)"
    "loop_body ends p (rangeIndex, left, right) = (rangeIndex, mid + 1, right)"
proof -
  let ?mid = "(left + right) div 2"
  have b: "left \<le> ?mid" "?mid \<le> right" using assms by auto
  show thesis
  proof (cases "js_less p (number_at ends ?mid)")
    case True
    then show ?thesis using that(1)[of ?mid] b by (simp add: loop_body_def Let_def)
  next
    case False
    then show ?thesis using that(2)[of ?mid] b by (simp add: loop_body_def Let_def)
  qed
qed

lemma search_loop_exit:
  "\<not> left \<le> right \<Longrightarrow> search_loop ends p (rangeIndex, left, right) = rangeIndex"
  by (subst search_loop.simps) simp

lemma search_loop_step:
  "left \<le> right \<Longrightarrow> search_loop ends p (rangeIndex, left, right)
     = search_loop ends p (loop_body ends p (rangeIndex, left, right))"
  by (subst search_loop.simps) simp

lemma search_loop_range:
  "(case st of (rangeIndex, left, right) \<Rightarrow> 0 \<le> rangeIndex \<and> rangeIndex < n \<and> 0 \<le> left \<and> right < n)
   \<Longrightarrow> 0 \<le> search_loop ends p st \<and> search_loop ends p st < n"
proof (induction ends p st rule: search_loop.induct)
  case (1 ends p rangeIndex left right)
  show ?case
  proof (cases "left \<le> right")
    case False
    then show ?thesis using "1.prems" by (simp add: search_loop_exit)
  next
    case True
    note step = search_loop_step[OF True, of ends p rangeIndex]
    from True show ?thesis
    proof (cases rule: loop_body_cases[of left right p ends rangeIndex])
      case (1 mid)
      have "case (mid, left, mid - 1) of (rangeIndex, left, right) \<Rightarrow>
              0 \<le> rangeIndex \<and> rangeIndex < n \<and> 0 \<le> left \<and> right < n"
        using 1(1,2) "1.prems" by auto
      from "1.IH"[OF True, unfolded 1(4), OF this] show ?thesis
        unfolding step 1(4) .
    next
      case (2 mid)
      have "case (rangeIndex, mid + 1, right) of (rangeIndex, left, right) \<Rightarrow>
              0 \<le> rangeIndex \<and> rangeIndex < n \<and> 0 \<le> left \<and> right < n"
        using 2(1,2) "1.prems" by auto
      from "1.IH"[OF True, unfolded 2(4), OF this] show ?thesis
        unfolding step 2(4) .
    qed
  qed
qed

lemma search_loop_none:
  assumes none: "\<And>i. \<not> js_less p (number_at ends i)"
  shows "search_loop ends p (rangeIndex, left, right) = rangeIndex"
proof (induction "nat (right - left + 1)" arbitrary: left right rule: less_induct)
  case less
  show ?case
  proof (cases "left \<le> right")
    case False
    then show ?thesis by (rule search_loop_exit)
  next
    case True
    from True show ?thesis
    proof (cases rule: loop_body_cases[of left right p ends rangeIndex])
      case (1 mid)
      then show ?thesis using none by blast
    next
      case (2 mid)
      have "nat (right - (mid + 1) + 1) < nat (right - left + 1)"
        using 2(1,2) by linarith
      from less[OF this] show ?thesis
        unfolding search_loop_step[OF True, of ends p rangeIndex] 2(4) .
    qed
  qed
qed

lemma search_loop_leftmost:
  assumes mono: "\<And>i j. 0 \<le> i \<Longrightarrow> i \<le> j \<Longrightarrow> j < n \<Longrightarrow> js_less p (number_at ends i)
                   \<Longrightarrow> js_less p (number_at ends j)"
    and ex: "0 \<le> k" "k < n" "js_less p (number_at ends k)"
  shows "0 \<le> left \<Longrightarrow> right < n \<Longrightarrow> left \<le> right + 1
     \<Longrightarrow> (\<And>i. 0 \<le> i \<Longrightarrow> i < left \<Longrightarrow> \<not> js_less p (number_at ends i))
     \<Longrightarrow> (\<And>i. right < i \<Longrightarrow> i < n \<Longrightarrow> js_less p (number_at ends i))
     \<Longrightarrow> (right + 1 < n \<Longrightarrow> rangeIndex = right + 1)
     \<Longrightarrow> 0 \<le> search_loop ends p (rangeIndex, left, right)
         \<and> search_loop ends p (rangeIndex, left, right) < n
         \<and> js_less p (number_at ends (search_loop ends p (rangeIndex, left, right)))
         \<and> (\<forall>i. 0 \<le> i \<and> i < search_loop ends p (rangeIndex, left, right)
               \<longrightarrow> \<not> js_less p (number_at ends i))"
proof (induction "nat (right - left + 1)" arbitrary: rangeIndex left right rule: less_induct)
  case less
  note lo = less.prems(4) and hi = less.prems(5) and cand = less.prems(6)
  show ?case
  proof (cases "left \<le> right")
    case False
    then have eq: "left = right + 1" using less.prems(3) by simp
    have inside: "right + 1 < n"
    proof (rule ccontr)
      assume "\<not> right + 1 < n"
      then have "k < left" using ex(2) eq by simp
      then show False using lo[OF ex(1)] ex(3) by blast
    qed
    have "rangeIndex = left" using cand[OF inside] eq by simp
    then have res: "search_loop ends p (rangeIndex, left, right) = left"
      using search_loop_exit[OF False, of ends p rangeIndex] by simp
    have "js_less p (number_at ends left)" using hi[of left] eq inside by simp
    moreover have "left < n" using inside eq by simp
    moreover have "\<forall>i. 0 \<le> i \<and> i < left \<longrightarrow> \<not> js_less p (number_at ends i)"
      using lo by blast
    ultimately show ?thesis unfolding res using less.prems(1) by blast
  next
    case True
    note step = search_loop_step[OF True, of ends p rangeIndex]
    from True show ?thesis
    proof (cases rule: loop_body_cases[of left right p ends rangeIndex])
      case (1 mid)
      have m: "nat (mid - 1 - left + 1) < nat (right - left + 1)"
        using 1(1,2) by linarith
      have a1: "mid - 1 < n" using 1(2) less.prems(2) by simp
      have a2: "left \<le> mid - 1 + 1" using 1(1) by simp
      have a3: "js_less p (number_at ends i)" if "mid - 1 < i" "i < n" for i
      proof -
        have "0 \<le> mid" "mid \<le> i" using 1(1) less.prems(1) that(1) by simp_all
        then show ?thesis using mono[OF _ _ that(2) 1(3)] by blast
      qed
      have a4: "mid = mid - 1 + 1" by simp
      from less.hyps[OF m less.prems(1) a1 a2 lo a3 a4]
      show ?thesis unfolding step 1(4) by blast
    next
      case (2 mid)
      have m: "nat (right - (mid + 1) + 1) < nat (right - left + 1)"
        using 2(1,2) by linarith
      have a0: "0 \<le> mid + 1" using 2(1) less.prems(1) by simp
      have a2: "mid + 1 \<le> right + 1" using 2(2) by simp
      have a3: "\<not> js_less p (number_at ends i)" if "0 \<le> i" "i < mid + 1" for i
      proof
        assume "js_less p (number_at ends i)"
        moreover have "i \<le> mid" "mid < n" using that(2) 2(2) less.prems(2) by simp_all
        ultimately have "js_less p (number_at ends mid)" using mono[OF that(1)] by blast
        then show False using 2(3) by simp
      qed
      from less.hyps[OF m a0 less.prems(2) a2 a3 hi cand]
      show ?thesis unfolding step 2(4) by blast
    qed
  qed
qed
lemma search_loop_prefix:
  assumes down: "\<And>i j. 0 \<le> i \<Longrightarrow> i \<le> j \<Longrightarrow> js_less p (number_at ends j)
                   \<Longrightarrow> js_less p (number_at ends i)"
  shows "0 \<le> left \<Longrightarrow> - 1 \<le> right
     \<Longrightarrow> (left = 0 \<or> (\<forall>i. left \<le> i \<longrightarrow> \<not> js_less p (number_at ends i)))
     \<Longrightarrow> (rangeIndex = 0
           \<or> (left = 0 \<and> rangeIndex = right + 1 \<and> js_less p (number_at ends rangeIndex)))
     \<Longrightarrow> search_loop ends p (rangeIndex, left, right) = 0"
proof (induction "nat (right - left + 1)" arbitrary: rangeIndex left right rule: less_induct)
  case less
  note tail = less.prems(3) and cand = less.prems(4)
  show ?case
  proof (cases "left \<le> right")
    case False
    have "rangeIndex = 0"
    proof (rule ccontr)
      assume "rangeIndex \<noteq> 0"
      then have "left = 0" "rangeIndex = right + 1" using cand by blast+
      then show False using False less.prems(2) \<open>rangeIndex \<noteq> 0\<close> by simp
    qed
    then show ?thesis using search_loop_exit[OF False, of ends p rangeIndex] by simp
  next
    case True
    note step = search_loop_step[OF True, of ends p rangeIndex]
    from True show ?thesis
    proof (cases rule: loop_body_cases[of left right p ends rangeIndex])
      case (1 mid)
      have l0: "left = 0" using tail 1(1,3) by blast
      have m: "nat (mid - 1 - left + 1) < nat (right - left + 1)"
        using 1(1,2) by linarith
      have a2: "- 1 \<le> mid - 1" using 1(1) less.prems(1) by simp
      have a3: "left = 0 \<or> (\<forall>i. left \<le> i \<longrightarrow> \<not> js_less p (number_at ends i))"
        using l0 by simp
      have a4: "mid = 0 \<or> (left = 0 \<and> mid = mid - 1 + 1 \<and> js_less p (number_at ends mid))"
        using l0 1(3) by simp
      from less.hyps[OF m less.prems(1) a2 a3 a4]
      show ?thesis unfolding step 1(4) .
    next
      case (2 mid)
      have m: "nat (right - (mid + 1) + 1) < nat (right - left + 1)"
        using 2(1,2) by linarith
      have mid0: "0 \<le> mid" using 2(1) less.prems(1) by simp
      have a1: "0 \<le> mid + 1" using mid0 by simp
      have above: "\<not> js_less p (number_at ends i)" if "mid + 1 \<le> i" for i
      proof
        assume "js_less p (number_at ends i)"
        moreover have "mid \<le> i" using that by simp
        ultimately have "js_less p (number_at ends mid)" using down[OF mid0] by blast
        then show False using 2(3) by simp
      qed
      have a3: "mid + 1 = 0 \<or> (\<forall>i. mid + 1 \<le> i \<longrightarrow> \<not> js_less p (number_at ends i))"
        using above by blast
      have r0: "rangeIndex = 0"
      proof (rule ccontr)
        assume "rangeIndex \<noteq> 0"
        then have c: "rangeIndex = right + 1" "js_less p (number_at ends rangeIndex)"
          using cand by blast+
        have "mid \<le> rangeIndex" using c(1) 2(2) by simp
        then have "js_less p (number_at ends mid)" using down[OF mid0 _ c(2)] by blast
        then show False using 2(3) by simp
      qed
      have a4: "rangeIndex = 0
           \<or> (mid + 1 = 0 \<and> rangeIndex = right + 1 \<and> js_less p (number_at ends rangeIndex))"
        using r0 by simp
      from less.hyps[OF m a1 less.prems(2) a3 a4]
      show ?thesis unfolding step 2(4) .
    qed
  qed
qed

lemma loop_body_width:
  assumes "left \<le> right"
    and "loop_body ends p (rangeIndex, left, right) = (rangeIndex', left', right')"
  shows "right' - left' < right - left"
  using assms(1)
proof (cases rule: loop_body_cases[of left right p ends rangeIndex])
  case (1 mid)
  then show ?thesis using assms(2) by simp
next
  case (2 mid)
  then show ?thesis using assms(2) by simp
qed

lemma search_loop_iterations:
  "\<exists>k \<le> nat (right - left + 1). \<exists>rangeIndex' left' right'.
     (loop_body ends p ^^ k) (rangeIndex, left, right) = (rangeIndex', left', right')
     \<and> right' < left' \<and> search_loop ends p (rangeIndex, left, right) = rangeIndex'"
proof (induction "nat (right - left + 1)" arbitrary: rangeIndex left right rule: less_induct)
  case less
  show ?case
  proof (cases "left \<le> right")
    case False
    have "(loop_body ends p ^^ 0) (rangeIndex, left, right) = (rangeIndex, left, right)"
      by simp
    moreover have "right < left" using False by simp
    moreover have "search_loop ends p (rangeIndex, left, right) = rangeIndex"
      using False by (rule search_loop_exit)
    ultimately show ?thesis by blast
  next
    case True
    obtain ri' l' r' where st': "loop_body ends p (rangeIndex, left, right) = (ri', l', r')"
      using prod_cases3 by blast
    have w: "r' - l' < right - left" using loop_body_width[OF True st'] .
    then have m: "nat (r' - l' + 1) < nat (right - left + 1)" using True by linarith
    from less.hyps[OF m, of ri'] obtain k a b c where k: "k \<le> nat (r' - l' + 1)"
      "(loop_body ends p ^^ k) (ri', l', r') = (a, b, c)" "c < b"
      "search_loop ends p (ri', l', r') = a"
      by blast
    have res: "search_loop ends p (rangeIndex, left, right) = a"
      unfolding search_loop_step[OF True, of ends p rangeIndex] st' by (rule k(4))
    have it: "(loop_body ends p ^^ Suc k) (rangeIndex, left, right) = (a, b, c)"
      unfolding funpow_Suc_right using st' k(2) by simp
    have "Suc k \<le> nat (right - left + 1)" using k(1) m by linarith
    then show ?thesis using it k(3) res by blast
  qed
qed
section \<open>Constructed samplers\<close>

lemma js_less_not_le: "js_less a b \<Longrightarrow> \<not> js_le b a"
  by (cases a; cases b) auto

lemma constructor_Inr:
  assumes "constructor its ws = Inr s"
  shows "its \<noteq> []" "length its = length ws" "\<forall>w \<in> set ws. \<not> js_le w (Fin 0)"
    "s = \<lparr>items = its, ascRangeEnds = prefix_sums (Fin 0) ws,
          lastRangeEnd = foldl js_add (Fin 0) ws\<rparr>"
  using assms
  by (auto simp: constructor_def sum_weights_find find_None_iff
           split: if_splits option.splits)

lemma constructor_success:
  assumes "its \<noteq> []" "length its = length ws" "\<forall>w \<in> set ws. \<not> js_le w (Fin 0)"
  shows "constructor its ws = Inr \<lparr>items = its, ascRangeEnds = prefix_sums (Fin 0) ws,
          lastRangeEnd = foldl js_add (Fin 0) ws\<rparr>"
proof -
  have "List.find (\<lambda>w. js_le w (Fin 0)) ws = None"
    using assms(3) by (simp add: find_None_iff)
  moreover have "length its \<noteq> 0" using assms(1) by simp
  ultimately show ?thesis using assms(2) by (simp add: constructor_def sum_weights_find)
qed

lemma constructed_table:
  assumes "constructor its ws = Inr s"
  shows "length (ascRangeEnds s) = length its" "0 < length its"
    "sorted_wrt asc_rel (ascRangeEnds s)"
    "lastRangeEnd s = last (ascRangeEnds s)"
    "lastRangeEnd s = ascRangeEnds s ! (length its - 1)"
    "items s = its"
proof -
  note c = constructor_Inr[OF assms]
  show "length (ascRangeEnds s) = length its" using c(2,4) by (simp add: length_prefix_sums)
  show "0 < length its" using c(1) by simp
  show "sorted_wrt asc_rel (ascRangeEnds s)"
    using c(3,4) prefix_sums_sorted[OF is_sum_0, of ws] by simp
  have ne: "ws \<noteq> []" using c(1,2) by (cases ws) auto
  show l: "lastRangeEnd s = last (ascRangeEnds s)" using c(4) ne by (simp add: prefix_sums_last)
  have "prefix_sums (Fin 0) ws \<noteq> []" using ne by (simp add: prefix_sums_Nil_iff)
  then show "lastRangeEnd s = ascRangeEnds s ! (length its - 1)"
    using l c(2,4) by (simp add: last_conv_nth length_prefix_sums)
  show "items s = its" using c(4) by simp
qed

lemma number_at_nth: "i < length xs \<Longrightarrow> number_at xs (int i) = xs ! i"
  by (simp add: number_at_def js_index_def)

lemma number_at_nat: "0 \<le> i \<Longrightarrow> i < int (length xs) \<Longrightarrow> number_at xs i = xs ! nat i"
  by (simp add: number_at_def js_index_def)

lemma number_at_outside: "\<not> (0 \<le> i \<and> i < int (length xs)) \<Longrightarrow> number_at xs i = NaN"
  by (auto simp: number_at_def js_index_def)

lemma asc_rel_nth:
  assumes "sorted_wrt asc_rel xs" "i \<le> j" "j < length xs" "xs ! j \<noteq> NaN"
  shows "js_le (xs ! i) (xs ! j)"
proof (cases "i = j")
  case True
  then show ?thesis using assms(4) by (cases "xs ! j") auto
next
  case False
  then have "i < j" using assms(2) by simp
  then have "asc_rel (xs ! i) (xs ! j)"
    using assms(1,3) by (simp add: sorted_wrt_nth_less)
  then show ?thesis using assms(4) by (simp add: asc_rel_def)
qed

lemma table_no_NaN:
  assumes "sorted_wrt asc_rel xs" "last xs \<noteq> NaN" "j < length xs"
  shows "xs ! j \<noteq> NaN"
proof -
  have "xs \<noteq> []" using assms(3) by auto
  then have "xs ! (length xs - 1) \<noteq> NaN" using assms(2) by (simp add: last_conv_nth)
  moreover have "j \<le> length xs - 1" "length xs - 1 < length xs" using assms(3) by auto
  ultimately have "js_le (xs ! j) (xs ! (length xs - 1))"
    using asc_rel_nth[OF assms(1)] by blast
  then show ?thesis using js_le_not_NaN by blast
qed

text \<open>
  Below the last range end the table holds no \<^verbatim>\<open>NaN\<close>, and the test of the search
  loop, once true at an index, is true at every later index.
\<close>

lemma below_last_mono:
  assumes srt: "sorted_wrt asc_rel xs" and lt: "js_less p (last xs)"
    and i: "0 \<le> i" "i \<le> j" "j < int (length xs)" and pi: "js_less p (number_at xs i)"
  shows "js_less p (number_at xs j)"
proof -
  have lastn: "last xs \<noteq> NaN" using lt js_less_not_NaN by blast
  have idx: "nat i \<le> nat j" "nat j < length xs" "0 \<le> j" "i < int (length xs)"
    using i by auto
  have "xs ! nat j \<noteq> NaN" using table_no_NaN[OF srt lastn idx(2)] .
  then have "js_le (xs ! nat i) (xs ! nat j)" using asc_rel_nth[OF srt idx(1,2)] by simp
  moreover have "js_less p (xs ! nat i)" using pi number_at_nat[OF i(1) idx(4)] by simp
  ultimately have "js_less p (xs ! nat j)" using js_less_le_trans by blast
  then show ?thesis using number_at_nat[OF idx(3) i(3)] by simp
qed

text \<open>At or above the last range end the test of the search loop is false everywhere.\<close>

lemma above_last_none:
  assumes srt: "sorted_wrt asc_rel xs" and ge: "js_le (last xs) p"
  shows "\<not> js_less p (number_at xs i)"
proof (cases "0 \<le> i \<and> i < int (length xs)")
  case False
  then show ?thesis by (simp add: number_at_outside)
next
  case True
  then have ne: "xs \<noteq> []" by auto
  have idx: "nat i < length xs" "0 \<le> i" "i < int (length xs)" using True by auto
  have lastn: "last xs \<noteq> NaN" using ge js_le_not_NaN by blast
  have "nat i \<le> length xs - 1" "length xs - 1 < length xs" using idx(1) by auto
  moreover have "xs ! (length xs - 1) \<noteq> NaN" using lastn ne by (simp add: last_conv_nth)
  ultimately have "js_le (xs ! nat i) (xs ! (length xs - 1))"
    using asc_rel_nth[OF srt] by blast
  moreover have "js_le (xs ! (length xs - 1)) p" using ge ne by (simp add: last_conv_nth)
  ultimately have "js_le (xs ! nat i) p" using js_le_trans by blast
  then have "\<not> js_less p (xs ! nat i)" by (rule js_le_not_less)
  then show ?thesis using number_at_nat[OF idx(2,3)] by simp
qed

text \<open>
  Below the first range end the test of the search loop is true exactly on the entries
  before the first \<^verbatim>\<open>NaN\<close>: once false at an index, it is false at every later index.
\<close>

lemma below_first_down:
  assumes srt: "sorted_wrt asc_rel xs" and lt: "js_less p (xs ! 0)"
    and i: "0 \<le> i" "i \<le> j" and pj: "js_less p (number_at xs j)"
  shows "js_less p (number_at xs i)"
proof -
  have jin: "j < int (length xs)"
  proof (rule ccontr)
    assume "\<not> j < int (length xs)"
    then have "number_at xs j = NaN" by (simp add: number_at_outside)
    then show False using pj by simp
  qed
  have j0: "0 \<le> j" using i by simp
  have idx: "nat i \<le> nat j" "nat j < length xs" "nat i < length xs" "i < int (length xs)"
    using i jin by auto
  have "js_less p (xs ! nat j)" using pj number_at_nat[OF j0 jin] by simp
  then have "xs ! nat j \<noteq> NaN" using js_less_not_NaN by blast
  then have "js_le (xs ! nat i) (xs ! nat j)" using asc_rel_nth[OF srt idx(1,2)] by simp
  then have "xs ! nat i \<noteq> NaN" using js_le_not_NaN by blast
  then have "js_le (xs ! 0) (xs ! nat i)" using asc_rel_nth[OF srt _ idx(3), of 0] by simp
  then have "js_less p (xs ! nat i)" using lt js_less_le_trans by blast
  then show ?thesis using number_at_nat[OF i(1) idx(4)] by simp
qed

lemma find_leftmost:
  assumes c: "constructor its ws = Inr s"
    and p0: "js_le (Fin 0) p" and pt: "js_less p (lastRangeEnd s)"
  shows "\<exists>i < length its.
           findCorrespondingRangeIndex s p = int i
           \<and> js_less p (ascRangeEnds s ! i)
           \<and> (\<forall>j < i. \<not> js_less p (ascRangeEnds s ! j))
           \<and> (i = 0 \<or> js_le (ascRangeEnds s ! (i - 1)) p)
           \<and> (\<forall>j < length its.
                 (j = 0 \<or> js_le (ascRangeEnds s ! (j - 1)) p) \<and> js_less p (ascRangeEnds s ! j)
                 \<longrightarrow> j = i)"
proof -
  let ?b = "ascRangeEnds s"
  let ?n = "int (length ?b)"
  note t = constructed_table[OF c]
  have ne: "?b \<noteq> []" using t(1,2) by auto
  have npos: "0 < length ?b" using ne by simp
  have lt: "js_less p (last ?b)" using pt t(4) by simp
  have lastn: "last ?b \<noteq> NaN" using lt js_less_not_NaN by blast
  have pn: "p \<noteq> NaN" using p0 js_le_not_NaN by blast
  let ?r = "search_loop ?b p (0, 0, ?n - 1)"
  have k0: "0 \<le> ?n - 1" and k1: "?n - 1 < ?n" using npos by (cases ?b; simp)+
  have "int (length ?b - 1) = ?n - 1" using npos by (cases ?b) auto
  then have "number_at ?b (?n - 1) = ?b ! (length ?b - 1)"
    using number_at_nth[of "length ?b - 1" ?b] npos by simp
  then have k2: "js_less p (number_at ?b (?n - 1))"
    using lt ne by (simp add: last_conv_nth)
  have r: "0 \<le> ?r \<and> ?r < ?n \<and> js_less p (number_at ?b ?r)
      \<and> (\<forall>i. 0 \<le> i \<and> i < ?r \<longrightarrow> \<not> js_less p (number_at ?b i))"
  proof (rule search_loop_leftmost[of ?n p ?b "?n - 1" 0 "?n - 1" 0])
    show "js_less p (number_at ?b j)"
      if "0 \<le> i" "i \<le> j" "j < ?n" "js_less p (number_at ?b i)" for i j
      using below_last_mono[OF t(3) lt that] .
    show "0 \<le> ?n - 1" by (rule k0)
    show "?n - 1 < ?n" by (rule k1)
    show "js_less p (number_at ?b (?n - 1))" by (rule k2)
    show "(0::int) \<le> 0" by simp
    show "?n - 1 < ?n" by (rule k1)
    show "0 \<le> ?n - 1 + 1" by simp
    show "\<not> js_less p (number_at ?b i)" if "0 \<le> i" "i < 0" for i
      using that by simp
    show "js_less p (number_at ?b i)" if "?n - 1 < i" "i < ?n" for i
      using that by simp
    show "0 = ?n - 1 + 1" if "?n - 1 + 1 < ?n"
      using that by simp
  qed
  define i where "i = nat ?r"
  have i: "i < length ?b" "?r = int i" using r by (auto simp: i_def)
  have pi: "js_less p (?b ! i)" using r i number_at_nth[OF i(1)] by simp
  have least: "\<not> js_less p (?b ! j)" if "j < i" for j
  proof -
    have "0 \<le> int j \<and> int j < ?r" using that i(2) by simp
    then have "\<not> js_less p (number_at ?b (int j))" using r by blast
    moreover have "j < length ?b" using that i(1) by simp
    ultimately show ?thesis by (simp add: number_at_nth)
  qed
  have lower: "i = 0 \<or> js_le (?b ! (i - 1)) p"
  proof (cases "i = 0")
    case True
    then show ?thesis by simp
  next
    case False
    then have "\<not> js_less p (?b ! (i - 1))" using least[of "i - 1"] by simp
    moreover have "?b ! (i - 1) \<noteq> NaN"
      using table_no_NaN[OF t(3) lastn, of "i - 1"] i(1) by simp
    ultimately show ?thesis using pn js_not_less_le by blast
  qed
  have uniq: "j = i"
    if j: "j < length its" "j = 0 \<or> js_le (?b ! (j - 1)) p" "js_less p (?b ! j)" for j
  proof (rule ccontr)
    assume neq: "j \<noteq> i"
    have "\<not> j < i" using least j(3) by blast
    then have ij: "i < j" using neq by simp
    then have le: "js_le (?b ! (j - 1)) p" using j(2) by auto
    then have nn: "?b ! (j - 1) \<noteq> NaN" using js_le_not_NaN by blast
    have "i \<le> j - 1" "j - 1 < length ?b" using ij j(1) t(1) by auto
    then have "js_le (?b ! i) (?b ! (j - 1))" using asc_rel_nth[OF t(3) _ _ nn] by blast
    then have "js_le (?b ! i) p" using le js_le_trans by blast
    then show False using pi js_le_not_less by blast
  qed
  show ?thesis
  proof (intro exI[of _ i] conjI)
    show "i < length its" using i(1) t(1) by simp
    show "findCorrespondingRangeIndex s p = int i"
      using i(2) by (simp add: findCorrespondingRangeIndex_def)
    show "js_less p (?b ! i)" by (rule pi)
    show "\<forall>j<i. \<not> js_less p (?b ! j)" using least by blast
    show "i = 0 \<or> js_le (?b ! (i - 1)) p" by (rule lower)
    show "\<forall>j<length its. (j = 0 \<or> js_le (?b ! (j - 1)) p) \<and> js_less p (?b ! j) \<longrightarrow> j = i"
      using uniq by blast
  qed
qed

lemma constructor_cases:
  "constructor its ws =
     (if its = [] then Inl EmptyInput
      else if length its \<noteq> length ws then Inl (LengthMismatch (length its) (length ws))
      else (case List.find (\<lambda>w. js_le w (Fin 0)) ws of
              Some w \<Rightarrow> Inl (NonPositiveWeight w)
            | None \<Rightarrow> Inr \<lparr>items = its, ascRangeEnds = prefix_sums (Fin 0) ws,
                             lastRangeEnd = foldl js_add (Fin 0) ws\<rparr>))"
  by (simp add: constructor_def sum_weights_find split: option.splits)

lemma find_in_range:
  assumes "constructor its ws = Inr s"
  shows "0 \<le> findCorrespondingRangeIndex s p"
    and "findCorrespondingRangeIndex s p < int (length its)"
proof -
  note t = constructed_table[OF assms]
  have "case (0 :: int, 0 :: int, int (length (ascRangeEnds s)) - 1) of
          (rangeIndex, left, right) \<Rightarrow>
            0 \<le> rangeIndex \<and> rangeIndex < int (length its) \<and> 0 \<le> left
            \<and> right < int (length its)"
    using t(1,2) by simp
  from search_loop_range[OF this, of "ascRangeEnds s" p]
  show "0 \<le> findCorrespondingRangeIndex s p"
    and "findCorrespondingRangeIndex s p < int (length its)"
    by (simp_all add: findCorrespondingRangeIndex_def)
qed

lemma snd_sample: "snd (sample s u) = s"
  by (simp add: sample_def Let_def)

lemma fst_sample:
  "fst (sample s u)
     = js_index (items s) (findCorrespondingRangeIndex s (js_mul u (lastRangeEnd s)))"
  by (simp add: sample_def Let_def)

lemma snd_sample_calls: "snd (sample_calls s us) = s"
proof (induction us)
  case Nil
  then show ?case by simp
next
  case (Cons u us)
  obtain x s' where 1: "sample s u = (x, s')" by (cases "sample s u") auto
  then have s': "s' = s" using snd_sample[of s u] by simp
  obtain xs s'' where 2: "sample_calls s us = (xs, s'')" by (cases "sample_calls s us") auto
  then have "s'' = s" using Cons.IH by simp
  then show ?case using 1 2 s' by simp
qed

lemma find_none:
  assumes "\<And>i. \<not> js_less p (number_at (ascRangeEnds s) i)"
  shows "findCorrespondingRangeIndex s p = 0"
  unfolding findCorrespondingRangeIndex_def using assms by (rule search_loop_none)

lemma find_above_last:
  assumes c: "constructor its ws = Inr s" and ge: "js_le (lastRangeEnd s) p"
  shows "findCorrespondingRangeIndex s p = 0"
proof (rule find_none)
  fix i
  note t = constructed_table[OF c]
  have "js_le (last (ascRangeEnds s)) p" using ge t(4) by simp
  then show "\<not> js_less p (number_at (ascRangeEnds s) i)"
    using above_last_none[OF t(3)] by blast
qed

lemma find_below_first:
  assumes c: "constructor its ws = Inr s" and lt: "js_less p (ascRangeEnds s ! 0)"
  shows "findCorrespondingRangeIndex s p = 0"
  unfolding findCorrespondingRangeIndex_def
proof (rule search_loop_prefix)
  note t = constructed_table[OF c]
  show "js_less p (number_at (ascRangeEnds s) i)"
    if "0 \<le> i" "i \<le> j" "js_less p (number_at (ascRangeEnds s) j)" for i j
    using below_first_down[OF t(3) lt that] .
  show "(0::int) \<le> 0" by simp
  show "- 1 \<le> int (length (ascRangeEnds s)) - 1" by simp
  show "(0::int) = 0 \<or> (\<forall>i. 0 \<le> i \<longrightarrow> \<not> js_less p (number_at (ascRangeEnds s) i))"
    by simp
  show "(0::int) = 0 \<or> ((0::int) = 0 \<and> 0 = int (length (ascRangeEnds s)) - 1 + 1
          \<and> js_less p (number_at (ascRangeEnds s) 0))"
    by simp
qed

lemma js_add_nonneg:
  assumes "js_le (Fin 0) s" "js_less (Fin 0) w"
  shows "js_le (Fin 0) (js_add s w)"
proof (cases s)
  case (Fin a)
  then have a: "0 \<le> a" using assms(1) by simp
  show ?thesis
  proof (cases w)
    case w: (Fin b)
    then have "0 < b" using assms(2) by simp
    then have pos: "0 \<le> a + b" using a by simp
    then have "round64 (a + b) = round_pos (a + b)" by (simp add: round64_def)
    moreover have "0 \<le> nearest (a + b)" using nearest_nonneg[OF pos] .
    ultimately show ?thesis using Fin w by (simp add: round_pos_def)
  qed (use assms(2) Fin in simp_all)
qed (use assms in \<open>cases w; simp\<close>)+

lemma prefix_sums_nonneg:
  "\<forall>w \<in> set ws. js_less (Fin 0) w \<Longrightarrow> js_le (Fin 0) s \<Longrightarrow> x \<in> set (prefix_sums s ws)
     \<Longrightarrow> js_le (Fin 0) x"
proof (induction ws arbitrary: s)
  case Nil
  then show ?case by simp
next
  case (Cons w ws)
  have w: "js_less (Fin 0) w" using Cons.prems(1) by simp
  have step: "js_le (Fin 0) (js_add s w)" using js_add_nonneg[OF Cons.prems(2) w] .
  from Cons.prems(3) consider "x = js_add s w" | "x \<in> set (prefix_sums (js_add s w) ws)"
    by auto
  then show ?case
  proof cases
    case 1
    then show ?thesis using step by simp
  next
    case 2
    have "\<forall>w \<in> set ws. js_less (Fin 0) w" using Cons.prems(1) by simp
    then show ?thesis using Cons.IH[OF _ step 2] by blast
  qed
qed

section \<open>The claims\<close>

text \<open>
  C1. For every successfully constructed sampler and every point \<open>p\<close> with
  \<open>0 \<le> p < total\<close>, the lookup \<^verbatim>\<open>_findCorrespondingRangeIndex\<close> returns the leftmost
  index \<open>i\<close> with \<open>p < boundary[i]\<close>; \<open>p\<close> lies in the half-open range
  \<open>[boundary[i-1], boundary[i])\<close> (from 0 for \<open>i = 0\<close>) and in no other range. For the
  weights \<open>[1, 2]\<close> the table is \<open>[1, 3]\<close>, the point 0.999 resolves to index 0 and the
  point 1.5 to index 1.
\<close>

theorem find_range_leftmost:
  "(\<forall>(its :: 'a list) ws s p.
      constructor its ws = Inr s \<and> js_le (Fin 0) p \<and> js_less p (lastRangeEnd s) \<longrightarrow>
        (\<exists>i < length its.
           findCorrespondingRangeIndex s p = int i
           \<and> js_less p (ascRangeEnds s ! i)
           \<and> (\<forall>j < i. \<not> js_less p (ascRangeEnds s ! j))
           \<and> (i = 0 \<or> js_le (ascRangeEnds s ! (i - 1)) p)
           \<and> (\<forall>j < length its.
                 (j = 0 \<or> js_le (ascRangeEnds s ! (j - 1)) p) \<and> js_less p (ascRangeEnds s ! j)
                 \<longrightarrow> j = i)))
   \<and> constructor [''A'', ''B''] [Fin 1, Fin 2]
       = Inr \<lparr>items = [''A'', ''B''], ascRangeEnds = [Fin 1, Fin 3], lastRangeEnd = Fin 3\<rparr>
   \<and> findCorrespondingRangeIndex
       \<lparr>items = [''A'', ''B''], ascRangeEnds = [Fin 1, Fin 3], lastRangeEnd = Fin 3\<rparr>
       (Fin (999 / 1000)) = 0
   \<and> findCorrespondingRangeIndex
       \<lparr>items = [''A'', ''B''], ascRangeEnds = [Fin 1, Fin 3], lastRangeEnd = Fin 3\<rparr>
       (Fin (3 / 2)) = 1"
proof (intro conjI allI impI)
  fix its :: "'a list" and ws s p
  assume "constructor its ws = Inr s \<and> js_le (Fin 0) p \<and> js_less p (lastRangeEnd s)"
  then show "\<exists>i < length its.
           findCorrespondingRangeIndex s p = int i
           \<and> js_less p (ascRangeEnds s ! i)
           \<and> (\<forall>j < i. \<not> js_less p (ascRangeEnds s ! j))
           \<and> (i = 0 \<or> js_le (ascRangeEnds s ! (i - 1)) p)
           \<and> (\<forall>j < length its.
                 (j = 0 \<or> js_le (ascRangeEnds s ! (j - 1)) p) \<and> js_less p (ascRangeEnds s ! j)
                 \<longrightarrow> j = i)"
    using find_leftmost[of its ws s p] by (elim conjE)
next
  show "constructor [''A'', ''B''] [Fin 1, Fin 2]
       = Inr \<lparr>items = [''A'', ''B''], ascRangeEnds = [Fin 1, Fin 3], lastRangeEnd = Fin 3\<rparr>"
    by (simp add: constructor_def round64_1 round64_3)
next
  show "findCorrespondingRangeIndex
       \<lparr>items = [''A'', ''B''], ascRangeEnds = [Fin 1, Fin 3], lastRangeEnd = Fin 3\<rparr>
       (Fin (999 / 1000)) = 0"
    by (simp add: findCorrespondingRangeIndex_def search_loop_step search_loop_exit
          loop_body_def number_at_def js_index_def)
next
  show "findCorrespondingRangeIndex
       \<lparr>items = [''A'', ''B''], ascRangeEnds = [Fin 1, Fin 3], lastRangeEnd = Fin 3\<rparr>
       (Fin (3 / 2)) = 1"
    by (simp add: findCorrespondingRangeIndex_def search_loop_step search_loop_exit
          loop_body_def number_at_def js_index_def)
qed

theorem find_range_leftmost_witness:
  "(constructor [''A'', ''B''] [Fin 1, Fin 2]
       = Inr \<lparr>items = [''A'', ''B''], ascRangeEnds = [Fin 1, Fin 3], lastRangeEnd = Fin 3\<rparr>
     \<and> js_le (Fin 0) (Fin (3 / 2))
     \<and> js_less (Fin (3 / 2)) (lastRangeEnd
           \<lparr>items = [''A'', ''B''], ascRangeEnds = [Fin 1, Fin 3], lastRangeEnd = Fin 3\<rparr>))
   \<and> (\<exists>i < length [''A'', ''B''].
         findCorrespondingRangeIndex
           \<lparr>items = [''A'', ''B''], ascRangeEnds = [Fin 1, Fin 3], lastRangeEnd = Fin 3\<rparr>
           (Fin (3 / 2)) = int i
       \<and> js_less (Fin (3 / 2)) (ascRangeEnds
           \<lparr>items = [''A'', ''B''], ascRangeEnds = [Fin 1, Fin 3], lastRangeEnd = Fin 3\<rparr> ! i)
       \<and> (\<forall>j < i. \<not> js_less (Fin (3 / 2)) (ascRangeEnds
           \<lparr>items = [''A'', ''B''], ascRangeEnds = [Fin 1, Fin 3], lastRangeEnd = Fin 3\<rparr> ! j))
       \<and> (i = 0 \<or> js_le (ascRangeEnds
           \<lparr>items = [''A'', ''B''], ascRangeEnds = [Fin 1, Fin 3], lastRangeEnd = Fin 3\<rparr>
             ! (i - 1)) (Fin (3 / 2)))
       \<and> (\<forall>j < length [''A'', ''B''].
             (j = 0 \<or> js_le (ascRangeEnds
           \<lparr>items = [''A'', ''B''], ascRangeEnds = [Fin 1, Fin 3], lastRangeEnd = Fin 3\<rparr>
             ! (j - 1)) (Fin (3 / 2)))
             \<and> js_less (Fin (3 / 2)) (ascRangeEnds
           \<lparr>items = [''A'', ''B''], ascRangeEnds = [Fin 1, Fin 3], lastRangeEnd = Fin 3\<rparr> ! j)
             \<longrightarrow> j = i))"
proof (rule conjI)
  show h: "constructor [''A'', ''B''] [Fin 1, Fin 2]
       = Inr \<lparr>items = [''A'', ''B''], ascRangeEnds = [Fin 1, Fin 3], lastRangeEnd = Fin 3\<rparr>
     \<and> js_le (Fin 0) (Fin (3 / 2))
     \<and> js_less (Fin (3 / 2)) (lastRangeEnd
           \<lparr>items = [''A'', ''B''], ascRangeEnds = [Fin 1, Fin 3], lastRangeEnd = Fin 3\<rparr>)"
    by (simp add: constructor_def round64_1 round64_3)
  show "\<exists>i < length [''A'', ''B''].
         findCorrespondingRangeIndex
           \<lparr>items = [''A'', ''B''], ascRangeEnds = [Fin 1, Fin 3], lastRangeEnd = Fin 3\<rparr>
           (Fin (3 / 2)) = int i
       \<and> js_less (Fin (3 / 2)) (ascRangeEnds
           \<lparr>items = [''A'', ''B''], ascRangeEnds = [Fin 1, Fin 3], lastRangeEnd = Fin 3\<rparr> ! i)
       \<and> (\<forall>j < i. \<not> js_less (Fin (3 / 2)) (ascRangeEnds
           \<lparr>items = [''A'', ''B''], ascRangeEnds = [Fin 1, Fin 3], lastRangeEnd = Fin 3\<rparr> ! j))
       \<and> (i = 0 \<or> js_le (ascRangeEnds
           \<lparr>items = [''A'', ''B''], ascRangeEnds = [Fin 1, Fin 3], lastRangeEnd = Fin 3\<rparr>
             ! (i - 1)) (Fin (3 / 2)))
       \<and> (\<forall>j < length [''A'', ''B''].
             (j = 0 \<or> js_le (ascRangeEnds
           \<lparr>items = [''A'', ''B''], ascRangeEnds = [Fin 1, Fin 3], lastRangeEnd = Fin 3\<rparr>
             ! (j - 1)) (Fin (3 / 2)))
             \<and> js_less (Fin (3 / 2)) (ascRangeEnds
           \<lparr>items = [''A'', ''B''], ascRangeEnds = [Fin 1, Fin 3], lastRangeEnd = Fin 3\<rparr> ! j)
             \<longrightarrow> j = i)"
    by (rule find_range_leftmost[THEN conjunct1, rule_format, OF h])
qed

text \<open>
  C3. Construction fails exactly when the input is invalid, and the first failing check
  decides the error: no items gives \<open>EmptyInput\<close>; otherwise a different number of
  weights gives \<open>LengthMismatch\<close>; otherwise a weight \<open>\<le> 0\<close> gives
  \<open>NonPositiveWeight\<close> (for the first such weight). A failure is an error value and
  holds no sampler.
\<close>

theorem constructor_validation:
  "(constructor its ws = Inl EmptyInput \<longleftrightarrow> its = [])
   \<and> (constructor its ws = Inl (LengthMismatch n m)
        \<longleftrightarrow> its \<noteq> [] \<and> length its \<noteq> length ws \<and> n = length its \<and> m = length ws)
   \<and> (constructor its ws = Inl (NonPositiveWeight w)
        \<longleftrightarrow> its \<noteq> [] \<and> length its = length ws
            \<and> (\<exists>i < length ws. js_le (ws ! i) (Fin 0) \<and> w = ws ! i
                  \<and> (\<forall>j < i. \<not> js_le (ws ! j) (Fin 0))))
   \<and> ((\<exists>s. constructor its ws = Inr s)
        \<longleftrightarrow> its \<noteq> [] \<and> length its = length ws \<and> (\<forall>w \<in> set ws. \<not> js_le w (Fin 0)))
   \<and> ((\<exists>e. constructor its ws = Inl e)
        \<longleftrightarrow> its = [] \<or> length its \<noteq> length ws \<or> (\<exists>w \<in> set ws. js_le w (Fin 0)))"
proof (intro conjI)
  show "constructor its ws = Inl EmptyInput \<longleftrightarrow> its = []"
    by (simp add: constructor_cases split: option.splits)
  show "constructor its ws = Inl (LengthMismatch n m)
        \<longleftrightarrow> its \<noteq> [] \<and> length its \<noteq> length ws \<and> n = length its \<and> m = length ws"
    by (auto simp: constructor_cases split: option.splits)
  show "constructor its ws = Inl (NonPositiveWeight w)
        \<longleftrightarrow> its \<noteq> [] \<and> length its = length ws
            \<and> (\<exists>i < length ws. js_le (ws ! i) (Fin 0) \<and> w = ws ! i
                  \<and> (\<forall>j < i. \<not> js_le (ws ! j) (Fin 0)))"
  proof (cases "its \<noteq> [] \<and> length its = length ws")
    case False
    then show ?thesis by (auto simp: constructor_cases)
  next
    case True
    then have "constructor its ws = Inl (NonPositiveWeight w)
                 \<longleftrightarrow> List.find (\<lambda>w. js_le w (Fin 0)) ws = Some w"
      by (simp add: constructor_cases split: option.splits)
    then show ?thesis using True by (simp only: find_Some_iff) simp
  qed
  show "(\<exists>s. constructor its ws = Inr s)
        \<longleftrightarrow> its \<noteq> [] \<and> length its = length ws \<and> (\<forall>w \<in> set ws. \<not> js_le w (Fin 0))"
    using constructor_Inr(1,2,3)[of its ws] constructor_success[of its ws] by blast
  show "(\<exists>e. constructor its ws = Inl e)
        \<longleftrightarrow> its = [] \<or> length its \<noteq> length ws \<or> (\<exists>w \<in> set ws. js_le w (Fin 0))"
  proof (cases "List.find (\<lambda>w. js_le w (Fin 0)) ws")
    case None
    then have "\<not> (\<exists>w \<in> set ws. js_le w (Fin 0))" by (simp add: find_None_iff)
    then show ?thesis using None by (simp add: constructor_cases)
  next
    case (Some w)
    then have "\<exists>w \<in> set ws. js_le w (Fin 0)"
      using find_None_iff[of "\<lambda>w. js_le w (Fin 0)" ws] by auto
    then show ?thesis using Some by (simp add: constructor_cases)
  qed
qed

theorem constructor_validation_witness:
  "constructor ([] :: string list) [Fin 5, Fin 4] = Inl EmptyInput
   \<and> constructor [''item1'', ''item2''] [Fin 1, Fin 2, Fin 3] = Inl (LengthMismatch 2 3)
   \<and> constructor [''item1'', ''item2''] [Fin 1, Fin (- 2)] = Inl (NonPositiveWeight (Fin (- 2)))
   \<and> (\<exists>s. constructor [''item1'', ''item2''] [Fin 1, Fin 2] = Inr s)"
proof (intro conjI)
  show "constructor ([] :: string list) [Fin 5, Fin 4] = Inl EmptyInput"
    using constructor_validation[of "[] :: string list" "[Fin 5, Fin 4]", THEN conjunct1]
    by simp
  show "constructor [''item1'', ''item2''] [Fin 1, Fin 2, Fin 3] = Inl (LengthMismatch 2 3)"
    using constructor_validation[of "[''item1'', ''item2'']" "[Fin 1, Fin 2, Fin 3]" 2 3,
            THEN conjunct2, THEN conjunct1]
    by simp
  have "\<exists>i < length [Fin 1, Fin (- 2)]. js_le ([Fin 1, Fin (- 2)] ! i) (Fin 0)
          \<and> Fin (- 2) = [Fin 1, Fin (- 2)] ! i
          \<and> (\<forall>j < i. \<not> js_le ([Fin 1, Fin (- 2)] ! j) (Fin 0))"
    by (intro exI[of _ 1]) simp
  then show "constructor [''item1'', ''item2''] [Fin 1, Fin (- 2)]
               = Inl (NonPositiveWeight (Fin (- 2)))"
    using constructor_validation[of "[''item1'', ''item2'']" "[Fin 1, Fin (- 2)]" _ _ "Fin (- 2)",
            THEN conjunct2, THEN conjunct2, THEN conjunct1]
    by simp
  show "\<exists>s. constructor [''item1'', ''item2''] [Fin 1, Fin 2] = Inr s"
    using constructor_validation[of "[''item1'', ''item2'']" "[Fin 1, Fin 2]",
            THEN conjunct2, THEN conjunct2, THEN conjunct2, THEN conjunct1]
    by simp
qed

text \<open>
  C4, as the code has it. When some weight is \<open>\<le> 0\<close> (zero, negative or \<^verbatim>\<open>-Infinity\<close>)
  at a position \<open>i\<close> of a weight list of the right length, construction fails with
  \<open>NonPositiveWeight\<close>, and the error carries the value of the first such weight, at
  some position \<open>k \<le> i\<close>. The error carries no index.
\<close>

theorem nonpositive_weight_rejected:
  assumes "its \<noteq> []" and "length its = length ws"
    and "i < length ws" and "js_le (ws ! i) (Fin 0)"
  shows "\<exists>k \<le> i. js_le (ws ! k) (Fin 0) \<and> (\<forall>j < k. \<not> js_le (ws ! j) (Fin 0))
           \<and> constructor its ws = Inl (NonPositiveWeight (ws ! k))"
proof -
  have "ws ! i \<in> set ws" using assms(3) by simp
  then have "List.find (\<lambda>w. js_le w (Fin 0)) ws \<noteq> None"
    using assms(4) by (auto simp: find_None_iff)
  then obtain w where f: "List.find (\<lambda>w. js_le w (Fin 0)) ws = Some w" by blast
  then obtain k where k: "k < length ws" "js_le (ws ! k) (Fin 0)" "w = ws ! k"
    "\<forall>j < k. \<not> js_le (ws ! j) (Fin 0)"
    unfolding find_Some_iff by blast
  have "k \<le> i"
  proof (rule ccontr)
    assume "\<not> k \<le> i"
    then have "i < k" by simp
    then show False using k(4) assms(4) by blast
  qed
  moreover have "constructor its ws = Inl (NonPositiveWeight (ws ! k))"
    using assms(1,2) f k(3) by (simp add: constructor_cases)
  ultimately show ?thesis using k(2,4) by blast
qed

theorem nonpositive_weight_rejected_witness:
  "[''item1'', ''item2'', ''item3''] \<noteq> []
   \<and> length [''item1'', ''item2'', ''item3''] = length [Fin (3 / 10), Fin 4, Fin 0]
   \<and> 2 < length [Fin (3 / 10), Fin 4, Fin 0]
   \<and> js_le ([Fin (3 / 10), Fin 4, Fin 0] ! 2) (Fin 0)
   \<and> (\<exists>k \<le> 2. js_le ([Fin (3 / 10), Fin 4, Fin 0] ! k) (Fin 0)
         \<and> (\<forall>j < k. \<not> js_le ([Fin (3 / 10), Fin 4, Fin 0] ! j) (Fin 0))
         \<and> constructor [''item1'', ''item2'', ''item3''] [Fin (3 / 10), Fin 4, Fin 0]
             = Inl (NonPositiveWeight ([Fin (3 / 10), Fin 4, Fin 0] ! k)))"
proof -
  have h1: "[''item1'', ''item2'', ''item3''] \<noteq> []" by simp
  have h2: "length [''item1'', ''item2'', ''item3''] = length [Fin (3 / 10), Fin 4, Fin 0]"
    by simp
  have h3: "2 < length [Fin (3 / 10), Fin 4, Fin 0]" by simp
  have h4: "js_le ([Fin (3 / 10), Fin 4, Fin 0] ! 2) (Fin 0)" by simp
  show ?thesis
    using h1 h2 h3 h4 nonpositive_weight_rejected[OF h1 h2 h3 h4] by (intro conjI)
qed

theorem nonpositive_weight_counterexample:
  "constructor [''A''] [PosInf]
     = Inr \<lparr>items = [''A''], ascRangeEnds = [PosInf], lastRangeEnd = PosInf\<rparr>
   \<and> constructor [''A''] [NaN]
     = Inr \<lparr>items = [''A''], ascRangeEnds = [NaN], lastRangeEnd = NaN\<rparr>
   \<and> constructor [''A'', ''B''] [Fin (- 1), Fin 1] = Inl (NonPositiveWeight (Fin (- 1)))
   \<and> constructor [''A'', ''B''] [Fin 1, Fin (- 1)] = Inl (NonPositiveWeight (Fin (- 1)))"
  by (simp add: constructor_def round64_1 round64_3)

text \<open>
  C6. For every successfully constructed sampler over \<open>n\<close> items and every value \<open>u\<close>
  drawn from the random source (in \<open>[0, 1)\<close>, and in fact for every number),
  \<^verbatim>\<open>sample()\<close> returns \<open>items[i]\<close> for an index \<open>i\<close> with \<open>0 \<le> i \<le> n - 1\<close>: never
  \<^verbatim>\<open>undefined\<close>, never a value that is not one of the items.
\<close>

theorem sample_returns_item:
  assumes "constructor its ws = Inr s"
  shows "\<exists>i < length its. fst (sample s u) = Some (its ! i)"
proof -
  let ?r = "findCorrespondingRangeIndex s (js_mul u (lastRangeEnd s))"
  note t = constructed_table[OF assms]
  have r: "0 \<le> ?r" "?r < int (length its)" using find_in_range[OF assms] by blast+
  then have "js_index (items s) ?r = Some (its ! nat ?r)"
    using t(6) by (simp add: js_index_def)
  then have "fst (sample s u) = Some (its ! nat ?r)" by (simp add: fst_sample)
  moreover have "nat ?r < length its" using r by simp
  ultimately show ?thesis by blast
qed

theorem sample_returns_item_witness:
  "constructor [''A'', ''B''] [Fin 1, Fin 2]
       = Inr \<lparr>items = [''A'', ''B''], ascRangeEnds = [Fin 1, Fin 3], lastRangeEnd = Fin 3\<rparr>
   \<and> (\<exists>i < length [''A'', ''B''].
         fst (sample \<lparr>items = [''A'', ''B''], ascRangeEnds = [Fin 1, Fin 3],
                      lastRangeEnd = Fin 3\<rparr> (Fin (1 / 2)))
           = Some ([''A'', ''B''] ! i))"
proof (rule conjI)
  show h: "constructor [''A'', ''B''] [Fin 1, Fin 2]
       = Inr \<lparr>items = [''A'', ''B''], ascRangeEnds = [Fin 1, Fin 3], lastRangeEnd = Fin 3\<rparr>"
    by (simp add: constructor_def round64_1 round64_3)
  show "\<exists>i < length [''A'', ''B''].
         fst (sample \<lparr>items = [''A'', ''B''], ascRangeEnds = [Fin 1, Fin 3],
                      lastRangeEnd = Fin 3\<rparr> (Fin (1 / 2)))
           = Some ([''A'', ''B''] ! i)"
    by (rule sample_returns_item[OF h])
qed

text \<open>
  C7. No call of \<^verbatim>\<open>sample()\<close> changes a field of the sampler: after one call, and after
  any sequence of calls, the sampler (items, range ends and last range end) is the one
  that construction produced.
\<close>

theorem sample_preserves_sampler:
  assumes "constructor its ws = Inr s"
  shows "snd (sample s u) = s \<and> snd (sample_calls s us) = s
         \<and> Inr (snd (sample_calls s us)) = constructor its ws"
  using assms by (simp add: snd_sample snd_sample_calls)

theorem sample_preserves_sampler_witness:
  "constructor [''A'', ''B''] [Fin 1, Fin 2]
       = Inr \<lparr>items = [''A'', ''B''], ascRangeEnds = [Fin 1, Fin 3], lastRangeEnd = Fin 3\<rparr>
   \<and> snd (sample_calls \<lparr>items = [''A'', ''B''], ascRangeEnds = [Fin 1, Fin 3],
                          lastRangeEnd = Fin 3\<rparr> [Fin (1 / 3), Fin (1 / 2), Fin 0])
       = \<lparr>items = [''A'', ''B''], ascRangeEnds = [Fin 1, Fin 3], lastRangeEnd = Fin 3\<rparr>"
proof (rule conjI)
  show h: "constructor [''A'', ''B''] [Fin 1, Fin 2]
       = Inr \<lparr>items = [''A'', ''B''], ascRangeEnds = [Fin 1, Fin 3], lastRangeEnd = Fin 3\<rparr>"
    by (simp add: constructor_def round64_1 round64_3)
  show "snd (sample_calls \<lparr>items = [''A'', ''B''], ascRangeEnds = [Fin 1, Fin 3],
                          lastRangeEnd = Fin 3\<rparr> [Fin (1 / 3), Fin (1 / 2), Fin 0])
       = \<lparr>items = [''A'', ''B''], ascRangeEnds = [Fin 1, Fin 3], lastRangeEnd = Fin 3\<rparr>"
    by (rule sample_preserves_sampler[OF h, THEN conjunct2, THEN conjunct1])
qed

text \<open>
  C8. Construction is deterministic in what it derives: two samplers constructed from
  the same weights (and the same items) have the same table of range ends, entry by
  entry, and the same last range end.
\<close>

theorem construction_deterministic:
  assumes "constructor its ws = Inr s1" and "constructor its' ws = Inr s2"
  shows "ascRangeEnds s1 = ascRangeEnds s2
         \<and> (\<forall>i < length ws. ascRangeEnds s1 ! i = ascRangeEnds s2 ! i)
         \<and> lastRangeEnd s1 = lastRangeEnd s2
         \<and> (its = its' \<longrightarrow> s1 = s2)"
proof -
  have 1: "s1 = \<lparr>items = its, ascRangeEnds = prefix_sums (Fin 0) ws,
          lastRangeEnd = foldl js_add (Fin 0) ws\<rparr>"
    using constructor_Inr(4)[OF assms(1)] .
  have 2: "s2 = \<lparr>items = its', ascRangeEnds = prefix_sums (Fin 0) ws,
          lastRangeEnd = foldl js_add (Fin 0) ws\<rparr>"
    using constructor_Inr(4)[OF assms(2)] .
  show ?thesis unfolding 1 2 by simp
qed

theorem construction_deterministic_witness:
  "(constructor [''A'', ''B''] [Fin 1, Fin 2]
       = Inr \<lparr>items = [''A'', ''B''], ascRangeEnds = [Fin 1, Fin 3], lastRangeEnd = Fin 3\<rparr>
    \<and> constructor [''C'', ''D''] [Fin 1, Fin 2]
       = Inr \<lparr>items = [''C'', ''D''], ascRangeEnds = [Fin 1, Fin 3], lastRangeEnd = Fin 3\<rparr>)
   \<and> ascRangeEnds \<lparr>items = [''A'', ''B''], ascRangeEnds = [Fin 1, Fin 3],
                     lastRangeEnd = Fin 3\<rparr>
       = ascRangeEnds \<lparr>items = [''C'', ''D''], ascRangeEnds = [Fin 1, Fin 3],
                     lastRangeEnd = Fin 3\<rparr>"
proof (rule conjI)
  show h: "constructor [''A'', ''B''] [Fin 1, Fin 2]
       = Inr \<lparr>items = [''A'', ''B''], ascRangeEnds = [Fin 1, Fin 3], lastRangeEnd = Fin 3\<rparr>
    \<and> constructor [''C'', ''D''] [Fin 1, Fin 2]
       = Inr \<lparr>items = [''C'', ''D''], ascRangeEnds = [Fin 1, Fin 3], lastRangeEnd = Fin 3\<rparr>"
    by (simp add: constructor_def round64_1 round64_3)
  show "ascRangeEnds \<lparr>items = [''A'', ''B''], ascRangeEnds = [Fin 1, Fin 3],
                     lastRangeEnd = Fin 3\<rparr>
       = ascRangeEnds \<lparr>items = [''C'', ''D''], ascRangeEnds = [Fin 1, Fin 3],
                     lastRangeEnd = Fin 3\<rparr>"
    by (rule construction_deterministic[OF h[THEN conjunct1] h[THEN conjunct2], THEN conjunct1])
qed

text \<open>
  C9. For every sampler and every lookup point (also outside \<open>[0, total)\<close>, also
  \<^verbatim>\<open>NaN\<close>), the loop of \<^verbatim>\<open>_findCorrespondingRangeIndex\<close> terminates: each iteration
  entered with \<open>left \<le> right\<close> makes \<open>right - left\<close> strictly smaller, and after at most
  \<open>n\<close> iterations the loop condition fails and the function returns the current
  \<open>rangeIndex\<close>.
\<close>

theorem search_terminates:
  "(\<forall>rangeIndex left right. left \<le> right \<longrightarrow>
      (\<exists>rangeIndex' left' right'.
         loop_body (ascRangeEnds s) p (rangeIndex, left, right) = (rangeIndex', left', right')
         \<and> right' - left' < right - left))
   \<and> (\<exists>k \<le> length (ascRangeEnds s). \<exists>rangeIndex' left' right'.
         (loop_body (ascRangeEnds s) p ^^ k) (0, 0, int (length (ascRangeEnds s)) - 1)
           = (rangeIndex', left', right')
         \<and> right' < left' \<and> findCorrespondingRangeIndex s p = rangeIndex')"
proof (intro conjI allI impI)
  fix rangeIndex left right :: int
  assume le: "left \<le> right"
  obtain ri' l' r' where st: "loop_body (ascRangeEnds s) p (rangeIndex, left, right) = (ri', l', r')"
    using prod_cases3 by blast
  then have "r' - l' < right - left" using loop_body_width[OF le] by blast
  then show "\<exists>rangeIndex' left' right'.
         loop_body (ascRangeEnds s) p (rangeIndex, left, right) = (rangeIndex', left', right')
         \<and> right' - left' < right - left"
    using st by blast
next
  have "nat (int (length (ascRangeEnds s)) - 1 - 0 + 1) = length (ascRangeEnds s)" by simp
  then show "\<exists>k \<le> length (ascRangeEnds s). \<exists>rangeIndex' left' right'.
         (loop_body (ascRangeEnds s) p ^^ k) (0, 0, int (length (ascRangeEnds s)) - 1)
           = (rangeIndex', left', right')
         \<and> right' < left' \<and> findCorrespondingRangeIndex s p = rangeIndex'"
    using search_loop_iterations[of "int (length (ascRangeEnds s)) - 1" 0 "ascRangeEnds s" p 0]
    unfolding findCorrespondingRangeIndex_def by simp
qed

theorem search_terminates_witness:
  "(0::int) \<le> 1
   \<and> (\<exists>rangeIndex' left' right'.
         loop_body (ascRangeEnds \<lparr>items = [''A'', ''B''], ascRangeEnds = [Fin 1, Fin 3],
                                   lastRangeEnd = Fin 3\<rparr>) NaN (0, 0, 1)
           = (rangeIndex', left', right')
         \<and> right' - left' < 1 - 0)"
proof (rule conjI)
  show h: "(0::int) \<le> 1" by simp
  show "\<exists>rangeIndex' left' right'.
         loop_body (ascRangeEnds \<lparr>items = [''A'', ''B''], ascRangeEnds = [Fin 1, Fin 3],
                                   lastRangeEnd = Fin 3\<rparr>) NaN (0, 0, 1)
           = (rangeIndex', left', right')
         \<and> right' - left' < 1 - 0"
    by (rule search_terminates[THEN conjunct1, rule_format, OF h])
qed

text \<open>
  C10. For every successfully constructed sampler over \<open>n\<close> items,
  \<^verbatim>\<open>_findCorrespondingRangeIndex\<close> returns its initial candidate 0 whenever the point is
  below no range end, in particular for every point \<open>p \<ge> boundary[n-1]\<close>; and it
  returns 0 for every point \<open>p < boundary[0]\<close>, negative points included.
\<close>

theorem find_returns_initial_candidate:
  assumes "constructor its ws = Inr s"
  shows "((\<forall>i < length its. \<not> js_less p (ascRangeEnds s ! i))
            \<longrightarrow> findCorrespondingRangeIndex s p = 0)
         \<and> (js_le (ascRangeEnds s ! (length its - 1)) p
            \<longrightarrow> findCorrespondingRangeIndex s p = 0)
         \<and> (js_less p (ascRangeEnds s ! 0) \<longrightarrow> findCorrespondingRangeIndex s p = 0)"
proof (intro conjI impI)
  note t = constructed_table[OF assms]
  {
    assume none: "\<forall>i < length its. \<not> js_less p (ascRangeEnds s ! i)"
    show "findCorrespondingRangeIndex s p = 0"
    proof (rule find_none)
      fix i :: int
      show "\<not> js_less p (number_at (ascRangeEnds s) i)"
      proof (cases "0 \<le> i \<and> i < int (length (ascRangeEnds s))")
        case False
        then show ?thesis by (simp add: number_at_outside)
      next
        case True
        then have "nat i < length its" using t(1) by auto
        then have "\<not> js_less p (ascRangeEnds s ! nat i)" using none by blast
        then show ?thesis using True by (simp add: number_at_nat)
      qed
    qed
  }
  {
    assume "js_le (ascRangeEnds s ! (length its - 1)) p"
    then have "js_le (lastRangeEnd s) p" using t(5) by simp
    then show "findCorrespondingRangeIndex s p = 0" by (rule find_above_last[OF assms])
  }
  {
    assume "js_less p (ascRangeEnds s ! 0)"
    then show "findCorrespondingRangeIndex s p = 0" by (rule find_below_first[OF assms])
  }
qed

theorem find_returns_initial_candidate_witness:
  "constructor [''A'', ''B''] [Fin 1, Fin 2]
       = Inr \<lparr>items = [''A'', ''B''], ascRangeEnds = [Fin 1, Fin 3], lastRangeEnd = Fin 3\<rparr>
   \<and> js_le (ascRangeEnds \<lparr>items = [''A'', ''B''], ascRangeEnds = [Fin 1, Fin 3],
                            lastRangeEnd = Fin 3\<rparr> ! (length [''A'', ''B''] - 1)) (Fin 7)
   \<and> findCorrespondingRangeIndex
        \<lparr>items = [''A'', ''B''], ascRangeEnds = [Fin 1, Fin 3], lastRangeEnd = Fin 3\<rparr>
        (Fin 7) = 0
   \<and> js_less (Fin (- 1)) (ascRangeEnds \<lparr>items = [''A'', ''B''],
                              ascRangeEnds = [Fin 1, Fin 3], lastRangeEnd = Fin 3\<rparr> ! 0)
   \<and> findCorrespondingRangeIndex
        \<lparr>items = [''A'', ''B''], ascRangeEnds = [Fin 1, Fin 3], lastRangeEnd = Fin 3\<rparr>
        (Fin (- 1)) = 0
   \<and> \<not> js_less PosInf (ascRangeEnds \<lparr>items = [''A'', ''B''],
                              ascRangeEnds = [Fin 1, Fin 3], lastRangeEnd = Fin 3\<rparr> ! 0)
   \<and> \<not> js_less PosInf (ascRangeEnds \<lparr>items = [''A'', ''B''],
                              ascRangeEnds = [Fin 1, Fin 3], lastRangeEnd = Fin 3\<rparr> ! 1)
   \<and> findCorrespondingRangeIndex
        \<lparr>items = [''A'', ''B''], ascRangeEnds = [Fin 1, Fin 3], lastRangeEnd = Fin 3\<rparr>
        PosInf = 0"
proof -
  let ?s = "\<lparr>items = [''A'', ''B''], ascRangeEnds = [Fin 1, Fin 3], lastRangeEnd = Fin 3\<rparr>"
  have h: "constructor [''A'', ''B''] [Fin 1, Fin 2] = Inr ?s"
    by (simp add: constructor_def round64_1 round64_3)
  have a: "js_le (ascRangeEnds ?s ! (length [''A'', ''B''] - 1)) (Fin 7)" by simp
  have b: "js_less (Fin (- 1)) (ascRangeEnds ?s ! 0)" by simp
  have c: "\<forall>i < length [''A'', ''B'']. \<not> js_less PosInf (ascRangeEnds ?s ! i)"
    by (simp add: less_Suc_eq all_conj_distrib numeral_2_eq_2)
  have ra: "findCorrespondingRangeIndex ?s (Fin 7) = 0"
    using find_returns_initial_candidate[OF h, of "Fin 7", THEN conjunct2, THEN conjunct1] a
    by blast
  have rb: "findCorrespondingRangeIndex ?s (Fin (- 1)) = 0"
    using find_returns_initial_candidate[OF h, of "Fin (- 1)", THEN conjunct2, THEN conjunct2] b
    by blast
  have rc: "findCorrespondingRangeIndex ?s PosInf = 0"
    using find_returns_initial_candidate[OF h, of PosInf, THEN conjunct1] c
    by blast
  have c0: "\<not> js_less PosInf (ascRangeEnds ?s ! 0)" by simp
  have c1: "\<not> js_less PosInf (ascRangeEnds ?s ! 1)" by simp
  show ?thesis using h a b c0 c1 ra rb rc by (intro conjI)
qed

text \<open>
  C5, as the code has it. The search has no clamp. For a point \<open>p \<ge> total\<close> no range
  end exceeds \<open>p\<close>, the search keeps its initial candidate and returns index 0, and
  \<^verbatim>\<open>sample()\<close> returns the first item; index 0 is the last index only when there is
  a single item.
\<close>

theorem find_at_or_above_total:
  assumes "constructor its ws = Inr s" and "js_le (lastRangeEnd s) p"
  shows "findCorrespondingRangeIndex s p = 0
         \<and> js_index (items s) (findCorrespondingRangeIndex s p) = Some (its ! 0)
         \<and> (findCorrespondingRangeIndex s p = int (length its) - 1 \<longleftrightarrow> length its = 1)
         \<and> (js_mul u (lastRangeEnd s) = p \<longrightarrow> fst (sample s u) = Some (its ! 0))"
proof -
  note t = constructed_table[OF assms(1)]
  have r: "findCorrespondingRangeIndex s p = 0"
    using find_above_last[OF assms] .
  have i: "js_index (items s) 0 = Some (its ! 0)"
    using t(2,6) by (simp add: js_index_def)
  have l: "(0 = int (length its) - 1) \<longleftrightarrow> length its = 1" by auto
  show ?thesis unfolding r fst_sample using i l r by simp
qed

theorem find_at_or_above_total_witness:
  "constructor [''A'', ''B''] [PosInf, Fin 1]
       = Inr \<lparr>items = [''A'', ''B''], ascRangeEnds = [PosInf, PosInf], lastRangeEnd = PosInf\<rparr>
   \<and> js_le (lastRangeEnd \<lparr>items = [''A'', ''B''], ascRangeEnds = [PosInf, PosInf],
                            lastRangeEnd = PosInf\<rparr>) PosInf
   \<and> js_mul (Fin (1 / 2)) (lastRangeEnd \<lparr>items = [''A'', ''B''],
                 ascRangeEnds = [PosInf, PosInf], lastRangeEnd = PosInf\<rparr>) = PosInf
   \<and> findCorrespondingRangeIndex \<lparr>items = [''A'', ''B''], ascRangeEnds = [PosInf, PosInf],
                                    lastRangeEnd = PosInf\<rparr> PosInf = 0
   \<and> fst (sample \<lparr>items = [''A'', ''B''], ascRangeEnds = [PosInf, PosInf],
                    lastRangeEnd = PosInf\<rparr> (Fin (1 / 2))) = Some ([''A'', ''B''] ! 0)"
proof -
  let ?s = "\<lparr>items = [''A'', ''B''], ascRangeEnds = [PosInf, PosInf], lastRangeEnd = PosInf\<rparr>"
  have h: "constructor [''A'', ''B''] [PosInf, Fin 1] = Inr ?s"
    by (simp add: constructor_def round64_1 round64_3)
  have a: "js_le (lastRangeEnd ?s) PosInf" by simp
  have m: "js_mul (Fin (1 / 2)) (lastRangeEnd ?s) = PosInf" by (simp add: js_sign_def)
  note r = find_at_or_above_total[OF h a, of "Fin (1 / 2)"]
  have r1: "findCorrespondingRangeIndex ?s PosInf = 0" using r by blast
  have r2: "fst (sample ?s (Fin (1 / 2))) = Some ([''A'', ''B''] ! 0)" using r m by blast
  show ?thesis using h a m r1 r2 by (intro conjI)
qed

theorem clamp_counterexample:
  "constructor [''A'', ''B''] [Fin 1, Fin 2]
       = Inr \<lparr>items = [''A'', ''B''], ascRangeEnds = [Fin 1, Fin 3], lastRangeEnd = Fin 3\<rparr>
   \<and> js_le (lastRangeEnd \<lparr>items = [''A'', ''B''], ascRangeEnds = [Fin 1, Fin 3],
                            lastRangeEnd = Fin 3\<rparr>) (Fin 3)
   \<and> findCorrespondingRangeIndex \<lparr>items = [''A'', ''B''], ascRangeEnds = [Fin 1, Fin 3],
                                    lastRangeEnd = Fin 3\<rparr> (Fin 3)
       \<noteq> int (length [''A'', ''B'']) - 1
   \<and> js_index [''A'', ''B'']
        (findCorrespondingRangeIndex \<lparr>items = [''A'', ''B''], ascRangeEnds = [Fin 1, Fin 3],
                                      lastRangeEnd = Fin 3\<rparr> (Fin 3)) = Some ''A''
   \<and> constructor [''A'', ''B''] [PosInf, Fin 1]
       = Inr \<lparr>items = [''A'', ''B''], ascRangeEnds = [PosInf, PosInf], lastRangeEnd = PosInf\<rparr>
   \<and> js_le (lastRangeEnd \<lparr>items = [''A'', ''B''], ascRangeEnds = [PosInf, PosInf],
                            lastRangeEnd = PosInf\<rparr>)
        (js_mul (Fin (1 / 2)) (lastRangeEnd \<lparr>items = [''A'', ''B''],
                 ascRangeEnds = [PosInf, PosInf], lastRangeEnd = PosInf\<rparr>))
   \<and> fst (sample \<lparr>items = [''A'', ''B''], ascRangeEnds = [PosInf, PosInf],
                    lastRangeEnd = PosInf\<rparr> (Fin (1 / 2))) = Some ''A''
   \<and> Some ''A'' \<noteq> Some (last [''A'', ''B''])"
  by (simp add: constructor_def round64_1 round64_3 sample_def Let_def
        findCorrespondingRangeIndex_def search_loop_step search_loop_exit loop_body_def
        number_at_def js_index_def js_sign_def)

text \<open>
  C2, as the code has it. For every valid input (\<open>n \<ge> 1\<close> items, \<open>n\<close> weights, all
  weights \<open>> 0\<close>) construction succeeds and builds a table of exactly \<open>n\<close> range ends
  with \<open>boundary[i] = weight[0] + ... + weight[i]\<close>, summed from the left with the
  rounding addition of numbers; the table never decreases, and the last range end
  equals \<open>boundary[n-1]\<close>. The table need not be strictly increasing: an addition
  that rounds, or a running sum of \<^verbatim>\<open>Infinity\<close>, leaves the sum unchanged.
\<close>

theorem boundary_table:
  assumes "its \<noteq> []" and "length its = length ws" and "\<forall>w \<in> set ws. js_less (Fin 0) w"
  shows "\<exists>s. constructor its ws = Inr s \<and> items s = its
           \<and> length (ascRangeEnds s) = length its
           \<and> (\<forall>i < length its. ascRangeEnds s ! i = foldl js_add (Fin 0) (take (Suc i) ws))
           \<and> (\<forall>i j. i < j \<and> j < length its
                 \<longrightarrow> js_le (ascRangeEnds s ! i) (ascRangeEnds s ! j))
           \<and> lastRangeEnd s = ascRangeEnds s ! (length its - 1)"
proof -
  let ?b = "prefix_sums (Fin 0) ws"
  let ?s = "\<lparr>items = its, ascRangeEnds = ?b, lastRangeEnd = foldl js_add (Fin 0) ws\<rparr>"
  have npos: "\<forall>w \<in> set ws. \<not> js_le w (Fin 0)"
    using assms(3) js_less_not_le by blast
  have c: "constructor its ws = Inr ?s"
    using constructor_success[OF assms(1,2) npos] .
  note t = constructed_table[OF c]
  have len: "length ?b = length its" using t(1) by simp
  have nth: "?b ! i = foldl js_add (Fin 0) (take (Suc i) ws)" if "i < length its" for i
    using that assms(2) by (simp add: prefix_sums_nth)
  have srt: "sorted_wrt asc_rel ?b" using t(3) by simp
  have mono: "js_le (?b ! i) (?b ! j)" if "i < j" "j < length its" for i j
  proof -
    have "?b ! j \<in> set ?b" using that(2) len by simp
    then have "js_le (Fin 0) (?b ! j)"
      using prefix_sums_nonneg[OF assms(3), of "Fin 0" "?b ! j"] by simp
    then have "?b ! j \<noteq> NaN" using js_le_not_NaN by blast
    then show ?thesis using asc_rel_nth[OF srt, of i j] that len by simp
  qed
  have last: "lastRangeEnd ?s = ascRangeEnds ?s ! (length its - 1)" using t(5) .
  show ?thesis
  proof (intro exI[of _ ?s] conjI)
    show "constructor its ws = Inr ?s" by (rule c)
    show "items ?s = its" by simp
    show "length (ascRangeEnds ?s) = length its" using len by simp
    show "\<forall>i < length its. ascRangeEnds ?s ! i = foldl js_add (Fin 0) (take (Suc i) ws)"
      using nth by simp
    show "\<forall>i j. i < j \<and> j < length its
            \<longrightarrow> js_le (ascRangeEnds ?s ! i) (ascRangeEnds ?s ! j)"
      using mono by simp
    show "lastRangeEnd ?s = ascRangeEnds ?s ! (length its - 1)" by (rule last)
  qed
qed

theorem boundary_table_witness:
  "[''A'', ''B''] \<noteq> [] \<and> length [''A'', ''B''] = length [Fin 1, Fin 2]
   \<and> js_less (Fin 0) (Fin 1) \<and> js_less (Fin 0) (Fin 2)
   \<and> (\<exists>s. constructor [''A'', ''B''] [Fin 1, Fin 2] = Inr s
         \<and> ascRangeEnds s = [Fin 1, Fin 3] \<and> lastRangeEnd s = Fin 3
         \<and> js_le (ascRangeEnds s ! 0) (ascRangeEnds s ! 1))"
proof -
  have h1: "[''A'', ''B''] \<noteq> []" by simp
  have h2: "length [''A'', ''B''] = length [Fin 1, Fin 2]" by simp
  have h3: "\<forall>w \<in> set [Fin 1, Fin 2]. js_less (Fin 0) w" by simp
  from boundary_table[OF h1 h2 h3] obtain s where
    s: "constructor [''A'', ''B''] [Fin 1, Fin 2] = Inr s"
    and mono: "\<forall>i j. i < j \<and> j < length [''A'', ''B'']
                 \<longrightarrow> js_le (ascRangeEnds s ! i) (ascRangeEnds s ! j)"
    by blast
  have "constructor [''A'', ''B''] [Fin 1, Fin 2]
          = Inr \<lparr>items = [''A'', ''B''], ascRangeEnds = [Fin 1, Fin 3], lastRangeEnd = Fin 3\<rparr>"
    by (simp add: constructor_def round64_1 round64_3)
  then have e: "ascRangeEnds s = [Fin 1, Fin 3]" "lastRangeEnd s = Fin 3" using s by auto
  have "(0::nat) < 1 \<and> 1 < length [''A'', ''B'']" by simp
  then have "js_le (ascRangeEnds s ! 0) (ascRangeEnds s ! 1)" using mono by blast
  then have "\<exists>s. constructor [''A'', ''B''] [Fin 1, Fin 2] = Inr s
         \<and> ascRangeEnds s = [Fin 1, Fin 3] \<and> lastRangeEnd s = Fin 3
         \<and> js_le (ascRangeEnds s ! 0) (ascRangeEnds s ! 1)"
    using s e by blast
  moreover have "js_less (Fin 0) (Fin 1)" "js_less (Fin 0) (Fin 2)" by simp_all
  ultimately show ?thesis using h1 h2 by (intro conjI)
qed

theorem boundary_table_counterexample:
  "[''A'', ''B''] \<noteq> [] \<and> length [''A'', ''B''] = length [Fin 10000000000000000, Fin 1]
   \<and> js_less (Fin 0) (Fin 10000000000000000) \<and> js_less (Fin 0) (Fin 1)
   \<and> constructor [''A'', ''B''] [Fin 10000000000000000, Fin 1]
       = Inr \<lparr>items = [''A'', ''B''],
              ascRangeEnds = [Fin 10000000000000000, Fin 10000000000000000],
              lastRangeEnd = Fin 10000000000000000\<rparr>
   \<and> \<not> js_less ([Fin 10000000000000000, Fin 10000000000000000] ! 0)
              ([Fin 10000000000000000, Fin 10000000000000000] ! 1)
   \<and> js_less (Fin 0) PosInf
   \<and> constructor [''A'', ''B''] [PosInf, Fin 1]
       = Inr \<lparr>items = [''A'', ''B''], ascRangeEnds = [PosInf, PosInf], lastRangeEnd = PosInf\<rparr>
   \<and> \<not> js_less ([PosInf, PosInf] ! 0) ([PosInf, PosInf] ! 1)"
  by (simp add: constructor_def round64_1e16 round64_1e16_plus_1)

end
